theory Spec2Isabelle
  imports Main "HOL-Library.AList"
begin

section \<open>Python values used by \<open>genome.py\<close>\<close>

text \<open>
  The exceptions the module can raise: \<open>ValueError\<close> is raised explicitly by
  \<open>insert_te\<close>; \<open>ZeroDivisionError\<close> by \<open>pos % len(self.genome)\<close> on an empty
  list genome; \<open>KeyError\<close> by \<open>self.te_identities[te]\<close> and \<open>dict.pop\<close> on a missing
  key; \<open>TypeError\<close> by \<open>"".join\<close> on a list holding \<open>None\<close>.
\<close>

datatype error = ValueError | ZeroDivisionError | KeyError | TypeError

text \<open>
  \<open>te_identities\<close> is a Python dict from TE id to the pair \<open>(start, end)\<close>. Python
  dicts keep insertion order, and \<open>active_tes\<close> returns the keys in that order, so the
  dict is an association list: \<open>d[k] = v\<close> overwrites in place or appends
  (\<open>AList.update\<close>), \<open>d.pop(k)\<close> removes the entry or raises \<open>KeyError\<close>.
\<close>

type_synonym te_range = "int \<times> int"
type_synonym te_dict = "(int \<times> te_range) list"

definition dict_get :: "te_dict \<Rightarrow> int \<Rightarrow> error + te_range" where
  "dict_get d k = (case map_of d k of None \<Rightarrow> Inl KeyError | Some v \<Rightarrow> Inr v)"

definition dict_pop :: "int \<Rightarrow> te_dict \<Rightarrow> error + (te_range \<times> te_dict)" where
  "dict_pop k d = (case map_of d k of None \<Rightarrow> Inl KeyError
                   | Some v \<Rightarrow> Inr (v, AList.delete k d))"

definition dict_set :: "int \<Rightarrow> te_range \<Rightarrow> te_dict \<Rightarrow> te_dict" where
  "dict_set k v d = AList.update k v d"

text \<open>
  Python slices. An index of a slice is clamped into \<open>[0, len]\<close>, a negative one
  counting from the end; \<open>xs[i:j] = v\<close> replaces the cells from \<open>i\<close> up to \<open>j\<close> (none
  when \<open>j\<close> lies before \<open>i\<close>) by \<open>v\<close>, whatever the length of \<open>v\<close>.
  \<open>k * [c]\<close> is the empty list when \<open>k\<close> is negative.
\<close>

definition slice_index :: "int \<Rightarrow> nat \<Rightarrow> nat" where
  "slice_index i n = (if i < 0 then nat (int n + i) else min (nat i) n)"

definition slice_assign :: "'a list \<Rightarrow> int \<Rightarrow> int \<Rightarrow> 'a list \<Rightarrow> 'a list" where
  "slice_assign xs i j v =
     (let lo = slice_index i (length xs);
          hi = max lo (slice_index j (length xs))
      in take lo xs @ v @ drop hi xs)"

definition slice_upto :: "'a list \<Rightarrow> int \<Rightarrow> 'a list" where
  "slice_upto xs j = take (slice_index j (length xs)) xs"

definition slice_from :: "'a list \<Rightarrow> int \<Rightarrow> 'a list" where
  "slice_from xs i = drop (slice_index i (length xs)) xs"

definition times_list :: "int \<Rightarrow> 'a \<Rightarrow> 'a list" where
  "times_list k c = replicate (nat k) c"

text \<open>
  A \<open>for\<close> loop over a list whose body may raise: the first exception ends the loop.
\<close>

fun for_each :: "('a \<Rightarrow> 's \<Rightarrow> error + 's) \<Rightarrow> 'a list \<Rightarrow> 's \<Rightarrow> error + 's" where
  "for_each body [] s = Inr s"
| "for_each body (x # xs) s =
     (case body x s of Inl e \<Rightarrow> Inl e | Inr s' \<Rightarrow> for_each body xs s')"

section \<open>\<open>ListGenome\<close>: the genome as a Python list\<close>

record ListGenome =
  genome :: string
  te_identities :: te_dict
  te_count :: int

definition list_init :: "int \<Rightarrow> ListGenome" where
  "list_init n = \<lparr>genome = times_list n CHR ''-'', te_identities = [], te_count = 0\<rparr>"

text \<open>
  The body of the loop of \<open>ListGenome.insert_te\<close> over the snapshot
  \<open>list(self.te_identities.items())\<close>, for one item \<open>(id, (start, end))\<close> (the id is \<open>te\<close> here).
\<close>

definition list_insert_step :: "int \<Rightarrow> int \<Rightarrow> int \<times> te_range \<Rightarrow> ListGenome \<Rightarrow> error + ListGenome" where
  "list_insert_step pos len item g =
     (case item of (te, start, end) \<Rightarrow>
        if start \<le> pos \<and> pos < end then
          (let g1 = g\<lparr>genome := slice_assign (genome g) start end (times_list (end - start) CHR ''x'')\<rparr>
           in case dict_pop te (te_identities g1) of
                Inl e \<Rightarrow> Inl e
              | Inr (_, d) \<Rightarrow> Inr (g1\<lparr>te_identities := d\<rparr>))
        else if start > pos then
          Inr (g\<lparr>te_identities := dict_set te (start + len, end + len) (te_identities g)\<rparr>)
        else Inr g)"

definition list_insert_te :: "int \<Rightarrow> int \<Rightarrow> ListGenome \<Rightarrow> error + (int \<times> ListGenome)" where
  "list_insert_te pos len g =
     (if pos > int (length (genome g)) then Inl ValueError
      else if length (genome g) = 0 then Inl ZeroDivisionError
      else
        (let pos = pos mod int (length (genome g))
         in case for_each (list_insert_step pos len) (te_identities g) g of
              Inl e \<Rightarrow> Inl e
            | Inr g1 \<Rightarrow>
                (let g2 = g1\<lparr>te_count := te_count g1 + 1\<rparr>;
                     g3 = g2\<lparr>te_identities := dict_set (te_count g2) (pos, pos + len) (te_identities g2)\<rparr>;
                     g4 = g3\<lparr>genome := slice_upto (genome g3) pos @ times_list len CHR ''A''
                                          @ slice_from (genome g3) pos\<rparr>
                 in Inr (te_count g4, g4))))"

definition list_copy_te :: "int \<Rightarrow> int \<Rightarrow> ListGenome \<Rightarrow> error + (int option \<times> ListGenome)" where
  "list_copy_te te offset g =
     (case map_of (te_identities g) te of
        None \<Rightarrow> Inr (None, g)
      | Some (start, end) \<Rightarrow>
          (let copy_length = end - start;
               copy_pos = start + offset
           in case list_insert_te copy_pos copy_length g of
                Inl e \<Rightarrow> Inl e
              | Inr (new_id, g') \<Rightarrow> Inr (Some new_id, g')))"

text \<open>
  \<open>if self.te_identities[te]:\<close> raises \<open>KeyError\<close> for a key that is not in the dict;
  for a key that is, the value is a pair, which is always true.
\<close>

definition list_disable_te :: "int \<Rightarrow> ListGenome \<Rightarrow> error + ListGenome" where
  "list_disable_te te g =
     (case dict_get (te_identities g) te of
        Inl e \<Rightarrow> Inl e
      | Inr _ \<Rightarrow>
          (case dict_pop te (te_identities g) of
             Inl e \<Rightarrow> Inl e
           | Inr ((start, end), d) \<Rightarrow>
               Inr (g\<lparr>te_identities := d,
                       genome := slice_assign (genome g) start end (times_list (end - start) CHR ''x'')\<rparr>)))"

definition list_active_tes :: "ListGenome \<Rightarrow> int list" where
  "list_active_tes g = map fst (te_identities g)"

definition list_len :: "ListGenome \<Rightarrow> int" where
  "list_len g = int (length (genome g))"

definition list_str :: "ListGenome \<Rightarrow> string" where
  "list_str g = genome g"

section \<open>Doubly linked links in a store\<close>

text \<open>
  A \<open>Link\<close> object has the fields \<open>val\<close>, \<open>prev\<close> and \<open>next\<close>. Objects live in a
  store: \<open>cell\<close> maps an address to the object there, and \<open>top\<close> is the next unused
  address, which the constructor \<open>Link(...)\<close> takes. A \<open>val\<close> is \<open>None\<close> (the head
  of a genome) or a one-character string.
\<close>

record Link =
  val :: "char option"
  prev :: nat
  nxt :: nat

record store =
  cell :: "nat \<Rightarrow> Link"
  top :: nat

definition insert_after :: "nat \<Rightarrow> char option \<Rightarrow> store \<Rightarrow> store" where
  "insert_after link v h =
     (let new_link = top h;
          c0 = (cell h)(new_link := \<lparr>val = v, prev = link, nxt = nxt (cell h link)\<rparr>);
          c1 = c0(prev (c0 new_link) := (c0 (prev (c0 new_link)))\<lparr>nxt := new_link\<rparr>);
          c2 = c1(nxt (c1 new_link) := (c1 (nxt (c1 new_link)))\<lparr>prev := new_link\<rparr>)
      in \<lparr>cell = c2, top = Suc (top h)\<rparr>)"

definition remove_link :: "nat \<Rightarrow> store \<Rightarrow> store" where
  "remove_link link h =
     (let c0 = cell h;
          c1 = c0(prev (c0 link) := (c0 (prev (c0 link)))\<lparr>nxt := nxt (c0 link)\<rparr>);
          c2 = c1(nxt (c1 link) := (c1 (nxt (c1 link)))\<lparr>prev := prev (c1 link)\<rparr>)
      in h\<lparr>cell := c2\<rparr>)"

text \<open>\<open>for _ in range(k): current_link = current_link.next\<close>\<close>

definition walk :: "store \<Rightarrow> int \<Rightarrow> nat \<Rightarrow> nat" where
  "walk h k a = ((\<lambda>a. nxt (cell h a)) ^^ nat k) a"

section \<open>\<open>LinkedListGenome\<close>: the genome as a ring of links\<close>

record LinkedListGenome =
  heap :: store
  head :: nat
  glength :: int
  ll_te_identities :: te_dict
  ll_te_count :: int

text \<open>
  The constructor makes the head link, whose \<open>next\<close> and \<open>prev\<close> are itself, and
  appends \<open>n\<close> links holding \<open>"-"\<close> before the head.
\<close>

definition linked_init :: "int \<Rightarrow> LinkedListGenome" where
  "linked_init n =
     (let h0 = \<lparr>cell = (\<lambda>_. \<lparr>val = None, prev = 0, nxt = 0\<rparr>), top = Suc 0\<rparr>;
          h = ((\<lambda>h. insert_after (prev (cell h 0)) (Some CHR ''-'') h) ^^ nat n) h0
      in \<lparr>heap = h, head = 0, glength = n, ll_te_identities = [], ll_te_count = 0\<rparr>)"

text \<open>
  The second loop of \<open>disable_te\<close>:
  \<open>for _ in range(end - start): current_link.val = 'x'; current_link = current_link.next\<close>.
\<close>

definition mark_step :: "store \<times> nat \<Rightarrow> store \<times> nat" where
  "mark_step = (\<lambda>(h, current_link).
     (h\<lparr>cell := (cell h)(current_link := (cell h current_link)\<lparr>val := Some CHR ''x''\<rparr>)\<rparr>,
      nxt (cell h current_link)))"

definition linked_disable_te :: "int \<Rightarrow> LinkedListGenome \<Rightarrow> error + LinkedListGenome" where
  "linked_disable_te te g =
     (case dict_get (ll_te_identities g) te of
        Inl e \<Rightarrow> Inl e
      | Inr _ \<Rightarrow>
          (case dict_pop te (ll_te_identities g) of
             Inl e \<Rightarrow> Inl e
           | Inr ((start, end), d) \<Rightarrow>
               (let current_link = walk (heap g) start (nxt (cell (heap g) (head g)));
                    (h, _) = (mark_step ^^ nat (end - start)) (heap g, current_link)
                in Inr (g\<lparr>ll_te_identities := d, heap := h\<rparr>))))"

definition linked_insert_step ::
  "int \<Rightarrow> int \<Rightarrow> int \<times> te_range \<Rightarrow> LinkedListGenome \<Rightarrow> error + LinkedListGenome" where
  "linked_insert_step pos len item g =
     (case item of (te, start, end) \<Rightarrow>
        if start \<le> pos \<and> pos < end then linked_disable_te te g
        else if start > pos then
          Inr (g\<lparr>ll_te_identities := dict_set te (start + len, end + len) (ll_te_identities g)\<rparr>)
        else Inr g)"

text \<open>
  The last loop of \<open>insert_te\<close>:
  \<open>for _ in range(length): insert_after(current_link, 'A'); current_link = current_link.next\<close>.
\<close>

definition splice_step :: "store \<times> nat \<Rightarrow> store \<times> nat" where
  "splice_step = (\<lambda>(h, current_link).
     (let h' = insert_after current_link (Some CHR ''A'') h
      in (h', nxt (cell h' current_link))))"

definition linked_insert_te ::
  "int \<Rightarrow> int \<Rightarrow> LinkedListGenome \<Rightarrow> error + (int \<times> LinkedListGenome)" where
  "linked_insert_te pos len g =
     (if pos > glength g then Inl ValueError
      else
        (case for_each (linked_insert_step pos len) (ll_te_identities g) g of
           Inl e \<Rightarrow> Inl e
         | Inr g1 \<Rightarrow>
             (let g2 = g1\<lparr>ll_te_count := ll_te_count g1 + 1\<rparr>;
                  g3 = g2\<lparr>ll_te_identities :=
                             dict_set (ll_te_count g2) (pos, pos + len) (ll_te_identities g2)\<rparr>;
                  current_link = walk (heap g3) (pos - 1) (nxt (cell (heap g3) (head g3)));
                  (h, _) = (splice_step ^^ nat len) (heap g3, current_link);
                  g4 = g3\<lparr>heap := h, glength := glength g3 + len\<rparr>
              in Inr (ll_te_count g4, g4))))"

definition linked_copy_te ::
  "int \<Rightarrow> int \<Rightarrow> LinkedListGenome \<Rightarrow> error + (int option \<times> LinkedListGenome)" where
  "linked_copy_te te offset g =
     (case map_of (ll_te_identities g) te of
        None \<Rightarrow> Inr (None, g)
      | Some (start, end) \<Rightarrow>
          (let copy_length = end - start;
               copy_pos = (if offset > 0 then start + offset
                           else if start + offset < 0 then glength g + start + offset
                           else start + offset)
           in case linked_insert_te copy_pos copy_length g of
                Inl e \<Rightarrow> Inl e
              | Inr (new_id, g') \<Rightarrow> Inr (Some new_id, g')))"

definition linked_active_tes :: "LinkedListGenome \<Rightarrow> int list" where
  "linked_active_tes g = map fst (ll_te_identities g)"

definition linked_len :: "LinkedListGenome \<Rightarrow> int" where
  "linked_len g = glength g"

text \<open>
  \<open>__str__\<close> collects \<open>self.length\<close> values walking from \<open>head.next\<close> and joins them;
  \<open>"".join\<close> raises \<open>TypeError\<close> when one of them is \<open>None\<close>.
\<close>

definition collect_step :: "store \<Rightarrow> char option list \<times> nat \<Rightarrow> char option list \<times> nat" where
  "collect_step h = (\<lambda>(links, pos). (links @ [val (cell h pos)], nxt (cell h pos)))"

definition join :: "char option list \<Rightarrow> error + string" where
  "join links = (if None \<in> set links then Inl TypeError else Inr (map the links))"

definition linked_str :: "LinkedListGenome \<Rightarrow> error + string" where
  "linked_str g =
     (let (links, _) = (collect_step (heap g) ^^ nat (glength g))
                         ([], nxt (cell (heap g) (head g)))
      in join links)"

section \<open>The loop of \<open>insert_te\<close> in closed form\<close>

text \<open>
  What the loop over the snapshot of the registry leaves behind, as functions of the
  snapshot: an entry whose range holds \<open>pos\<close> is dropped and its cells are overwritten
  with \<open>x\<close>, an entry that starts after \<open>pos\<close> is moved by \<open>len\<close>, any other entry is
  kept. The lemmas \<open>list_loop\<close> and \<open>linked_loop\<close> prove that the loops of the two
  classes compute these.
\<close>

definition collides :: "int \<Rightarrow> int \<times> te_range \<Rightarrow> bool" where
  "collides pos item = (case item of (te, start, end) \<Rightarrow> start \<le> pos \<and> pos < end)"

definition shift_item :: "int \<Rightarrow> int \<Rightarrow> int \<times> te_range \<Rightarrow> int \<times> te_range" where
  "shift_item pos len item =
     (case item of (te, start, end) \<Rightarrow> if start > pos then (te, start + len, end + len) else item)"

definition shifted :: "int \<Rightarrow> int \<Rightarrow> te_dict \<Rightarrow> te_dict" where
  "shifted pos len d = map (shift_item pos len) (filter (\<lambda>item. \<not> collides pos item) d)"

definition mark :: "string \<Rightarrow> int \<times> te_range \<Rightarrow> string" where
  "mark w item = (case item of (te, start, end) \<Rightarrow>
      slice_assign w start end (times_list (end - start) CHR ''x''))"

definition marked :: "int \<Rightarrow> te_dict \<Rightarrow> string \<Rightarrow> string" where
  "marked pos d w = foldl mark w (filter (collides pos) d)"

section \<open>The ring of links as a list\<close>

text \<open>
  The links of a genome form a ring: \<open>ring h a0 cs\<close> says that, in the store \<open>h\<close>,
  following \<open>next\<close> from the head \<open>a0\<close> visits the distinct links \<open>cs\<close> in this order
  and returns to the head, that all of them are allocated, and that the head's \<open>prev\<close>
  is the last of them. \<open>vals\<close> reads their values. \<open>represents K cs L\<close> says that the
  linked genome \<open>K\<close>, whose links after the head are \<open>cs\<close>, holds the cells, the
  registry and the counter of the list genome \<open>L\<close>. \<open>linked_index\<close> is the index at
  which \<open>LinkedListGenome.insert_te\<close> splices: it walks \<open>pos - 1\<close> links from the
  first cell and inserts after the link it reaches. \<open>in_bounds n\<close> says that the range
  of a registry entry lies in a genome of \<open>n\<close> cells.
\<close>

definition ring :: "store \<Rightarrow> nat \<Rightarrow> nat list \<Rightarrow> bool" where
  "ring h a0 cs \<longleftrightarrow>
     map (\<lambda>a. nxt (cell h a)) (a0 # cs) = cs @ [a0] \<and> distinct (a0 # cs) \<and>
     (\<forall>a \<in> set (a0 # cs). a < top h) \<and> prev (cell h a0) = last (a0 # cs)"

definition vals :: "store \<Rightarrow> nat list \<Rightarrow> char option list" where
  "vals h cs = map (\<lambda>a. val (cell h a)) cs"

definition mark_cells :: "store \<Rightarrow> nat list \<Rightarrow> store" where
  "mark_cells h as =
     h\<lparr>cell := (\<lambda>a. if a \<in> set as then (cell h a)\<lparr>val := Some CHR ''x''\<rparr> else cell h a)\<rparr>"

definition in_bounds :: "nat \<Rightarrow> int \<times> te_range \<Rightarrow> bool" where
  "in_bounds n item = (case item of (te, start, end) \<Rightarrow> 0 \<le> start \<and> start \<le> end \<and> end \<le> int n)"

definition represents :: "LinkedListGenome \<Rightarrow> nat list \<Rightarrow> ListGenome \<Rightarrow> bool" where
  "represents K cs L \<longleftrightarrow>
     ring (heap K) (head K) cs \<and> glength K = int (length cs) \<and>
     vals (heap K) cs = map Some (genome L) \<and>
     ll_te_identities K = te_identities L \<and> ll_te_count K = te_count L"

definition linked_index :: "int \<Rightarrow> nat \<Rightarrow> nat" where
  "linked_index pos n = (if 1 \<le> pos then nat pos else min 1 n)"

text \<open>
  The list genome that a linked genome represents after \<open>insert_te(pos, len)\<close>, given
  the list genome \<open>L\<close> it represented before (lemma \<open>linked_insert_te_eval\<close>): the
  position is not reduced modulo the length, and the new cells go in at
  \<open>linked_index pos\<close>.
\<close>

definition linked_insert_te_abs :: "int \<Rightarrow> int \<Rightarrow> ListGenome \<Rightarrow> ListGenome" where
  "linked_insert_te_abs pos len L =
     (let w = marked pos (te_identities L) (genome L);
          k = linked_index pos (length (genome L))
      in \<lparr>genome = take k w @ replicate (nat len) CHR ''A'' @ drop k w,
          te_identities = dict_set (te_count L + 1) (pos, pos + len) (shifted pos len (te_identities L)),
          te_count = te_count L + 1\<rparr>)"

text \<open>
  \<open>same_links h h'\<close>: the store \<open>h'\<close> has the links of \<open>h\<close> with the same \<open>next\<close> and
  \<open>prev\<close>, and each value is as in \<open>h\<close> or has been overwritten with \<open>x\<close>; this is
  what the marking loop of \<open>disable_te\<close> does to a store, wherever it starts and
  however far it runs. \<open>ll_shape K\<close>: the links of \<open>K\<close> form a ring of \<open>self.length\<close>
  cells, each holding a character.
\<close>

definition same_links :: "store \<Rightarrow> store \<Rightarrow> bool" where
  "same_links h h' \<longleftrightarrow>
     top h' = top h \<and>
     (\<forall>a. nxt (cell h' a) = nxt (cell h a) \<and> prev (cell h' a) = prev (cell h a) \<and>
          (val (cell h' a) = val (cell h a) \<or> val (cell h' a) = Some CHR ''x''))"

definition ll_shape :: "LinkedListGenome \<Rightarrow> bool" where
  "ll_shape K \<longleftrightarrow>
     (\<exists>cs. ring (heap K) (head K) cs \<and> glength K = int (length cs) \<and>
           None \<notin> set (vals (heap K) cs))"

text \<open>
  Scripts of calls. \<open>list_apply\<close> and \<open>linked_apply\<close> give the object after one call;
  a call that raises leaves the object as it was, since every raise that can happen
  comes before the first assignment to a field (the range check and the modulo of
  \<open>insert_te\<close>, the lookup of \<open>disable_te\<close>). \<open>list_run n ops\<close> is the object after
  the constructor with \<open>n\<close> and the calls \<open>ops\<close>.
\<close>

datatype op = Insert_te int int | Copy_te int int | Disable_te int

fun list_apply :: "op \<Rightarrow> ListGenome \<Rightarrow> ListGenome" where
  "list_apply (Insert_te pos len) g =
     (case list_insert_te pos len g of Inl e \<Rightarrow> g | Inr (te, g') \<Rightarrow> g')"
| "list_apply (Copy_te te offset) g =
     (case list_copy_te te offset g of Inl e \<Rightarrow> g | Inr (r, g') \<Rightarrow> g')"
| "list_apply (Disable_te te) g =
     (case list_disable_te te g of Inl e \<Rightarrow> g | Inr g' \<Rightarrow> g')"

fun linked_apply :: "op \<Rightarrow> LinkedListGenome \<Rightarrow> LinkedListGenome" where
  "linked_apply (Insert_te pos len) g =
     (case linked_insert_te pos len g of Inl e \<Rightarrow> g | Inr (te, g') \<Rightarrow> g')"
| "linked_apply (Copy_te te offset) g =
     (case linked_copy_te te offset g of Inl e \<Rightarrow> g | Inr (r, g') \<Rightarrow> g')"
| "linked_apply (Disable_te te) g =
     (case linked_disable_te te g of Inl e \<Rightarrow> g | Inr g' \<Rightarrow> g')"

definition list_run :: "int \<Rightarrow> op list \<Rightarrow> ListGenome" where
  "list_run n ops = foldl (\<lambda>g c. list_apply c g) (list_init n) ops"

definition linked_run :: "int \<Rightarrow> op list \<Rightarrow> LinkedListGenome" where
  "linked_run n ops = foldl (\<lambda>g c. linked_apply c g) (linked_init n) ops"

text \<open>
  Invariants of the two classes. \<open>list_wf\<close>: the keys of the registry are distinct and
  are ids issued so far, and every registered range lies in the genome. \<open>linked_wf\<close>:
  the links form a ring of \<open>self.length\<close> cells, the keys are distinct, and every
  registered range has its start at or before its end. \<open>nonneg_len\<close> says that a call
  of a script inserts a TE of non-negative length.
\<close>

definition list_wf :: "ListGenome \<Rightarrow> bool" where
  "list_wf g \<longleftrightarrow>
     distinct (map fst (te_identities g)) \<and>
     (\<forall>item \<in> set (te_identities g).
        in_bounds (length (genome g)) item \<and> fst item \<le> te_count g)"

definition ordered_range :: "int \<times> te_range \<Rightarrow> bool" where
  "ordered_range item = (case item of (te, start, end) \<Rightarrow> start \<le> end)"

definition linked_wf :: "LinkedListGenome \<Rightarrow> bool" where
  "linked_wf K \<longleftrightarrow>
     ll_shape K \<and> distinct (map fst (ll_te_identities K)) \<and>
     (\<forall>item \<in> set (ll_te_identities K). ordered_range item)"

definition nonneg_len :: "op \<Rightarrow> bool" where
  "nonneg_len c = (case c of Insert_te pos len \<Rightarrow> 0 \<le> len | _ \<Rightarrow> True)"

text \<open>
  What both classes leave behind when \<open>insert_te\<close> lands at \<open>pos\<close> inside the TE \<open>te\<close>
  registered at \<open>(s, e)\<close>, in terms of the ids \<open>active\<close>, the \<open>registry\<close> and the string
  \<open>rendered\<close> afterwards: \<open>te\<close> is no longer active, the new id is, with the range
  \<open>(pos, pos + len)\<close>; the \<open>e - s\<close> cells of \<open>te\<close> are all \<open>x\<close>, and they sit at
  \<open>[s, pos)\<close> and \<open>[pos + len, e + len)\<close>, around the new cells \<open>A\<close> at \<open>[pos, pos + len)\<close>.
\<close>

definition after_collision :: "int \<Rightarrow> int \<Rightarrow> int \<Rightarrow> int \<Rightarrow> int \<Rightarrow> int \<Rightarrow> int list \<Rightarrow> te_dict \<Rightarrow> string \<Rightarrow> bool" where
  "after_collision te s e pos len new active registry rendered \<longleftrightarrow>
     te \<notin> set active \<and> new \<in> set active \<and> map_of registry new = Some (pos, pos + len) \<and>
     (\<forall>i. s \<le> i \<and> i < pos \<longrightarrow> rendered ! nat i = CHR ''x'') \<and>
     (\<forall>i. pos \<le> i \<and> i < pos + len \<longrightarrow> rendered ! nat i = CHR ''A'') \<and>
     (\<forall>i. pos + len \<le> i \<and> i < e + len \<longrightarrow> rendered ! nat i = CHR ''x'')"

text \<open>
  Where the two classes agree. \<open>agree g c\<close> holds for a call \<open>c\<close> on the list genome
  \<open>g\<close> when its insertion, if it makes one, has a non-negative length and a target
  position that is past the end (both classes raise \<open>ValueError\<close>) or, after the
  wrap-around of \<open>copy_te\<close>, strictly between 0 and the length. \<open>agree_script\<close> asks
  this of every call of a script, each at the point where it is made.
\<close>

definition agree :: "ListGenome \<Rightarrow> op \<Rightarrow> bool" where
  "agree g c =
     (case c of
        Insert_te pos len \<Rightarrow> 0 \<le> len \<and> (list_len g < pos \<or> (1 \<le> pos \<and> pos < list_len g))
      | Copy_te te offset \<Rightarrow>
          (case map_of (te_identities g) te of
             None \<Rightarrow> True
           | Some (start, end) \<Rightarrow>
               list_len g < start + offset \<or>
               (1 \<le> start + offset \<and> start + offset < list_len g) \<or>
               (- list_len g < start + offset \<and> start + offset < 0))
      | Disable_te te \<Rightarrow> True)"

fun agree_script :: "ListGenome \<Rightarrow> op list \<Rightarrow> bool" where
  "agree_script g [] = True"
| "agree_script g (c # cs) = (agree g c \<and> agree_script (list_apply c g) cs)"

text \<open>
  The invariant that ties the cells to the registry in a list genome: the registered
  ranges are pairwise disjoint, a cell is \<open>A\<close> exactly when a registered range covers its index, and every cell is
  one of \<open>-\<close>, \<open>A\<close>, \<open>x\<close>.
\<close>

definition covers :: "int \<times> te_range \<Rightarrow> nat \<Rightarrow> bool" where
  "covers item i = (case item of (te, start, end) \<Rightarrow> start \<le> int i \<and> int i < end)"

definition disjoint_ranges :: "te_dict \<Rightarrow> bool" where
  "disjoint_ranges d \<longleftrightarrow>
     (\<forall>x \<in> set d. \<forall>y \<in> set d. fst x \<noteq> fst y \<longrightarrow>
        snd (snd x) \<le> fst (snd y) \<or> snd (snd y) \<le> fst (snd x))"

definition active_cells_ok :: "ListGenome \<Rightarrow> bool" where
  "active_cells_ok g \<longleftrightarrow>
     list_wf g \<and> disjoint_ranges (te_identities g) \<and>
     (\<forall>i < length (genome g).
        (genome g ! i = CHR ''A'') = (\<exists>item \<in> set (te_identities g). covers item i)) \<and>
     set (genome g) \<subseteq> {CHR ''-'', CHR ''A'', CHR ''x''}"

section \<open>Dictionaries with distinct keys\<close>

lemma delete_append: "AList.delete t (xs @ ys) = AList.delete t xs @ AList.delete t ys"
  by (simp add: AList.delete_eq)

lemma dict_pop_middle:
  "distinct (map fst (xs @ (t, v) # ys)) \<Longrightarrow> dict_pop t (xs @ (t, v) # ys) = Inr (v, xs @ ys)"
proof -
  assume d: "distinct (map fst (xs @ (t, v) # ys))"
  then have nx: "t \<notin> fst ` set xs" and ny: "t \<notin> fst ` set ys" by auto
  have m: "map_of (xs @ (t, v) # ys) t = Some v"
    using nx by (simp add: map_add_def map_of_eq_None_iff[THEN iffD2] split: option.splits)
  have "AList.delete t (xs @ (t, v) # ys) = xs @ ys"
    using nx ny by (simp add: delete_append)
  with m show ?thesis by (simp add: dict_pop_def)
qed

lemma update_append_notin:
  "t \<notin> fst ` set xs \<Longrightarrow> AList.update t v (xs @ ys) = xs @ AList.update t v ys"
  by (induction xs) auto

lemma dict_set_middle:
  "distinct (map fst (xs @ (t, v) # ys)) \<Longrightarrow> dict_set t v' (xs @ (t, v) # ys) = xs @ (t, v') # ys"
  by (simp add: dict_set_def update_append_notin)

lemma dict_set_fresh:
  "t \<notin> fst ` set d \<Longrightarrow> dict_set t v d = d @ [(t, v)]"
  unfolding dict_set_def by (induction d) auto

section \<open>\<open>ListGenome.insert_te\<close>\<close>

lemma list_loop:
  "distinct (map fst (dn @ items)) \<Longrightarrow> te_identities g = dn @ items \<Longrightarrow>
   for_each (list_insert_step pos len) items g =
     Inr (g\<lparr>genome := marked pos items (genome g), te_identities := dn @ shifted pos len items\<rparr>)"
proof (induction items arbitrary: g dn)
  case Nil
  then show ?case by (simp add: marked_def shifted_def)
next
  case (Cons item items)
  obtain te s e where item: "item = (te, s, e)" by (cases item) auto
  show ?case
  proof (cases "s \<le> pos \<and> pos < e")
    case True
    let ?g1 = "g\<lparr>genome := mark (genome g) item, te_identities := dn @ items\<rparr>"
    have step: "list_insert_step pos len item g = Inr ?g1"
      using True Cons.prems item
      by (simp add: list_insert_step_def dict_pop_middle mark_def)
    have d: "distinct (map fst (dn @ items))" using Cons.prems(1) by auto
    have "for_each (list_insert_step pos len) items ?g1 =
       Inr (?g1\<lparr>genome := marked pos items (genome ?g1), te_identities := dn @ shifted pos len items\<rparr>)"
      by (rule Cons.IH[OF d]) simp
    moreover have "collides pos item" using True item by (simp add: collides_def)
    ultimately show ?thesis using step
      by (simp add: marked_def shifted_def)
  next
    case False
    let ?g1 = "g\<lparr>te_identities := (dn @ [shift_item pos len item]) @ items\<rparr>"
    have step: "list_insert_step pos len item g = Inr ?g1"
    proof (cases "s > pos")
      case True
      then show ?thesis using False Cons.prems item
        by (simp add: list_insert_step_def dict_set_middle shift_item_def)
    next
      case F2: False
      then show ?thesis using False Cons.prems item
        by (simp add: list_insert_step_def shift_item_def)
    qed
    have fst_shift: "fst (shift_item pos len item) = fst item"
      using item by (simp add: shift_item_def)
    have d: "distinct (map fst ((dn @ [shift_item pos len item]) @ items))"
      using Cons.prems(1) fst_shift by auto
    have "for_each (list_insert_step pos len) items ?g1 =
       Inr (?g1\<lparr>genome := marked pos items (genome ?g1),
               te_identities := (dn @ [shift_item pos len item]) @ shifted pos len items\<rparr>)"
      by (rule Cons.IH[OF d]) simp
    moreover have "\<not> collides pos item" using False item by (simp add: collides_def)
    ultimately show ?thesis using step
      by (simp add: marked_def shifted_def)
  qed
qed

lemma list_insert_te_eq:
  assumes d: "distinct (map fst (te_identities g))"
    and p: "pos \<le> int (length (genome g))" and n: "genome g \<noteq> []"
  shows "list_insert_te pos len g =
     (let p = pos mod int (length (genome g)); w = marked p (te_identities g) (genome g) in
      Inr (te_count g + 1,
           \<lparr>genome = slice_upto w p @ times_list len CHR ''A'' @ slice_from w p,
            te_identities = dict_set (te_count g + 1) (p, p + len) (shifted p len (te_identities g)),
            te_count = te_count g + 1\<rparr>))"
proof -
  have "for_each (list_insert_step (pos mod int (length (genome g))) len) (te_identities g) g =
     Inr (g\<lparr>genome := marked (pos mod int (length (genome g))) (te_identities g) (genome g),
            te_identities := [] @ shifted (pos mod int (length (genome g))) len (te_identities g)\<rparr>)"
    by (rule list_loop) (use d in simp_all)
  then show ?thesis using p n
    by (simp add: list_insert_te_def Let_def)
qed

lemma list_disable_te_unknown:
  "map_of (te_identities g) te = None \<Longrightarrow> list_disable_te te g = Inl KeyError"
  by (simp add: list_disable_te_def dict_get_def)

lemma linked_disable_te_unknown:
  "map_of (ll_te_identities g) te = None \<Longrightarrow> linked_disable_te te g = Inl KeyError"
  by (simp add: linked_disable_te_def dict_get_def)

section \<open>Links: insertion, walking, marking\<close>

lemma insert_after_nxt:
  "l \<noteq> top h \<Longrightarrow> nxt (cell (insert_after l v h) a) =
     (if a = l then top h else if a = top h then nxt (cell h l) else nxt (cell h a))"
  by (auto simp: insert_after_def Let_def)

lemma insert_after_val:
  "val (cell (insert_after l v h) a) = (if a = top h then v else val (cell h a))"
  by (auto simp: insert_after_def Let_def)

lemma insert_after_prev:
  "l \<noteq> top h \<Longrightarrow> nxt (cell h l) \<noteq> top h \<Longrightarrow> prev (cell (insert_after l v h) a) =
     (if a = nxt (cell h l) then top h else if a = top h then l else prev (cell h a))"
  by (auto simp: insert_after_def Let_def)

lemma insert_after_top: "top (insert_after l v h) = Suc (top h)"
  by (simp add: insert_after_def Let_def)

lemma ring_succ:
  assumes "ring h a0 (pre @ post)"
  shows "nxt (cell h (last (a0 # pre))) = hd (post @ [a0])"
proof -
  let ?f = "\<lambda>a. nxt (cell h a)"
  let ?P = "a0 # pre"
  have P: "?P = butlast ?P @ [last ?P]" by simp
  have "map ?f (a0 # pre @ post) = (pre @ post) @ [a0]" using assms by (simp add: ring_def)
  moreover have "a0 # pre @ post = butlast ?P @ last ?P # post" using P
    by (metis append.assoc append_Cons append_Nil)
  ultimately have "map ?f (butlast ?P) @ (?f (last ?P) # map ?f post) = pre @ (post @ [a0])"
    by (metis (no_types, lifting) append.assoc list.simps(9) map_append)
  moreover have "length (map ?f (butlast ?P)) = length pre" by simp
  ultimately have "?f (last ?P) # map ?f post = post @ [a0]"
    using append_eq_append_conv by blast
  then show ?thesis by (metis list.sel(1))
qed

lemma ring_insert_after:
  assumes r: "ring h a0 (pre @ post)"
  shows "ring (insert_after (last (a0 # pre)) v h) a0 (pre @ top h # post)"
proof -
  let ?f = "\<lambda>a. nxt (cell h a)"
  let ?l = "last (a0 # pre)"
  let ?h' = "insert_after ?l v h"
  let ?f' = "\<lambda>a. nxt (cell ?h' a)"
  let ?new = "top h"
  have mf: "map ?f (a0 # pre @ post) = (pre @ post) @ [a0]"
    and dist: "distinct (a0 # pre @ post)"
    and lt: "\<forall>a \<in> set (a0 # pre @ post). a < top h"
    and pv: "prev (cell h a0) = last (a0 # pre @ post)"
    using r by (simp_all add: ring_def)
  have l_in: "?l \<in> set (a0 # pre)" by (rule last_in_set) simp
  then have l_new: "?l \<noteq> ?new" using lt by auto
  have fl: "?f ?l = hd (post @ [a0])" by (rule ring_succ[OF r])
  have f1: "map ?f (a0 # pre) = pre @ [hd (post @ [a0])]"
  proof -
    have "map ?f (a0 # pre) = take (Suc (length pre)) (map ?f (a0 # pre @ post))"
      by simp
    also have "\<dots> = take (Suc (length pre)) ((pre @ post) @ [a0])" using mf by simp
    also have "\<dots> = pre @ take 1 (post @ [a0])" by simp
    also have "take 1 (post @ [a0]) = [hd (post @ [a0])]" by (cases post) auto
    finally show ?thesis .
  qed
  have f2: "map ?f post = tl (post @ [a0])"
  proof -
    have "map ?f post = drop (Suc (length pre)) (map ?f (a0 # pre @ post))"
      by simp
    also have "\<dots> = drop (Suc (length pre)) ((pre @ post) @ [a0])" using mf by simp
    also have "\<dots> = drop 1 (post @ [a0])" by simp
    also have "\<dots> = tl (post @ [a0])" by (cases post) auto
    finally show ?thesis .
  qed
  have f'_post: "map ?f' post = map ?f post"
  proof (rule map_cong[OF refl])
    fix a assume a: "a \<in> set post"
    then have "a \<noteq> ?new" using lt by auto
    moreover have "a \<noteq> ?l" using a l_in dist by auto
    ultimately show "?f' a = ?f a" using l_new by (simp add: insert_after_nxt)
  qed
  have f'_pre: "map ?f' (a0 # pre) = pre @ [?new]"
  proof -
    have bl: "a0 # pre = butlast (a0 # pre) @ [?l]" by simp
    have e1: "map ?f' (butlast (a0 # pre)) = map ?f (butlast (a0 # pre))"
    proof (rule map_cong[OF refl])
      fix a assume a: "a \<in> set (butlast (a0 # pre))"
      then have "a \<in> set (a0 # pre)" by (rule in_set_butlastD)
      then have "a \<noteq> ?new" using lt by auto
      moreover have "distinct (a0 # pre)" using dist by simp
      then have "distinct (butlast (a0 # pre) @ [?l])" using bl by metis
      then have "a \<noteq> ?l" using a by auto
      ultimately show "?f' a = ?f a" using l_new by (simp add: insert_after_nxt)
    qed
    have e2: "map ?f (butlast (a0 # pre)) = pre"
    proof -
      have "map ?f (butlast (a0 # pre)) = butlast (map ?f (a0 # pre))" by (simp add: map_butlast)
      also have "\<dots> = pre" unfolding f1 by simp
      finally show ?thesis .
    qed
    have e3: "?f' ?l = ?new" using l_new by (simp add: insert_after_nxt)
    have "map ?f' (butlast (a0 # pre) @ [?l]) = pre @ [?new]"
      by (simp only: map_append list.map e1 e2 e3)
    then show ?thesis using bl by metis
  qed
  have f'_new: "?f' ?new = hd (post @ [a0])"
    using l_new fl by (simp add: insert_after_nxt)
  have "map ?f' (a0 # pre @ ?new # post) = map ?f' (a0 # pre) @ ?f' ?new # map ?f' post"
    by simp
  also have "\<dots> = (pre @ [?new]) @ hd (post @ [a0]) # tl (post @ [a0])"
    unfolding f'_pre f'_new f'_post f2 ..
  also have "\<dots> = (pre @ ?new # post) @ [a0]" by simp
  finally have 1: "map ?f' (a0 # pre @ ?new # post) = (pre @ ?new # post) @ [a0]" .
  have 2: "distinct (a0 # pre @ ?new # post)" using dist lt by auto
  have 3: "\<forall>a \<in> set (a0 # pre @ ?new # post). a < top ?h'"
    using lt by (auto simp: insert_after_top less_Suc_eq)
  have fl_lt: "?f ?l \<noteq> ?new"
  proof -
    have "hd (post @ [a0]) \<in> set (a0 # pre @ post)" by (cases post) auto
    then show ?thesis using lt fl by auto
  qed
  have a0_new: "a0 \<noteq> ?new" using lt by auto
  have 4: "prev (cell ?h' a0) = last (a0 # pre @ ?new # post)"
  proof (cases post)
    case Nil
    then show ?thesis using l_new fl_lt fl by (simp add: insert_after_prev)
  next
    case (Cons p ps)
    then have "a0 \<noteq> hd (post @ [a0])" using dist by auto
    then show ?thesis using l_new fl_lt fl a0_new pv Cons by (simp add: insert_after_prev)
  qed
  show ?thesis unfolding ring_def using 1 2 3 4 by blast
qed

lemma vals_append: "vals h (xs @ ys) = vals h xs @ vals h ys"
  by (simp add: vals_def)

lemma vals_insert_after:
  "\<forall>a \<in> set cs. a < top h \<Longrightarrow> vals (insert_after l v h) cs = vals h cs"
  by (auto simp: vals_def insert_after_val)

lemma ring_structure_cong:
  assumes "ring h a0 cs"
    and "\<And>a. nxt (cell h' a) = nxt (cell h a)"
    and "\<And>a. prev (cell h' a) = prev (cell h a)"
    and "top h' = top h"
  shows "ring h' a0 cs"
  using assms by (simp add: ring_def)

lemma mark_cells_structure:
  "nxt (cell (mark_cells h as) a) = nxt (cell h a)"
  "prev (cell (mark_cells h as) a) = prev (cell h a)"
  "top (mark_cells h as) = top h"
  by (simp_all add: mark_cells_def)

lemma ring_mark_cells: "ring (mark_cells h as) a0 cs = ring h a0 cs"
  by (simp add: ring_def mark_cells_structure)

lemma mark_cells_Cons:
  "mark_cells (mark_cells h [a]) as = mark_cells h (a # as)"
  by (auto simp: mark_cells_def fun_eq_iff)

lemma mark_cells_Nil: "mark_cells h [] = h"
  by (simp add: mark_cells_def)

lemma mark_step_eq:
  "mark_step (h, a) = (mark_cells h [a], nxt (cell h a))"
  by (auto simp: mark_step_def mark_cells_def fun_eq_iff intro!: store.equality)

lemma walk_stretch:
  "ring h a0 (pre @ mid @ post) \<Longrightarrow>
   ((\<lambda>a. nxt (cell h a)) ^^ length mid) (hd (mid @ post @ [a0])) = hd (post @ [a0])"
proof (induction mid arbitrary: pre)
  case Nil
  then show ?case by simp
next
  case (Cons m mid)
  have r': "ring h a0 ((pre @ [m]) @ mid @ post)" using Cons.prems by simp
  have "nxt (cell h (last (a0 # pre @ [m]))) = hd ((mid @ post) @ [a0])"
    by (rule ring_succ) (use r' in simp)
  then have s: "nxt (cell h m) = hd (mid @ post @ [a0])" by simp
  show ?case using Cons.IH[OF r'] s by (simp add: funpow_Suc_right del: funpow.simps)
qed

lemma mark_stretch:
  "ring h a0 (pre @ mid @ post) \<Longrightarrow>
   (mark_step ^^ length mid) (h, hd (mid @ post @ [a0])) = (mark_cells h mid, hd (post @ [a0]))"
proof (induction mid arbitrary: pre h)
  case Nil
  then show ?case by (simp add: mark_cells_Nil)
next
  case (Cons m mid)
  have r': "ring h a0 ((pre @ [m]) @ mid @ post)" using Cons.prems by simp
  have "nxt (cell h (last (a0 # pre @ [m]))) = hd ((mid @ post) @ [a0])"
    by (rule ring_succ) (use r' in simp)
  then have s: "nxt (cell h m) = hd (mid @ post @ [a0])" by simp
  have r'': "ring (mark_cells h [m]) a0 ((pre @ [m]) @ mid @ post)"
    using r' by (simp only: ring_mark_cells)
  show ?case using Cons.IH[OF r''] s
    by (simp add: funpow_Suc_right mark_step_eq mark_cells_Cons del: funpow.simps)
qed

lemma collect_stretch:
  "ring h a0 (pre @ mid @ post) \<Longrightarrow>
   (collect_step h ^^ length mid) (acc, hd (mid @ post @ [a0])) = (acc @ vals h mid, hd (post @ [a0]))"
proof (induction mid arbitrary: pre acc)
  case Nil
  then show ?case by (simp add: vals_def)
next
  case (Cons m mid)
  have r': "ring h a0 ((pre @ [m]) @ mid @ post)" using Cons.prems by simp
  have "nxt (cell h (last (a0 # pre @ [m]))) = hd ((mid @ post) @ [a0])"
    by (rule ring_succ) (use r' in simp)
  then have s: "nxt (cell h m) = hd (mid @ post @ [a0])" by simp
  show ?case using Cons.IH[OF r', of "acc @ [val (cell h m)]"] s
    by (simp add: funpow_Suc_right collect_step_def vals_def del: funpow.simps)
qed

lemma splice_stretch:
  "ring h a0 (pre @ post) \<Longrightarrow>
   \<exists>h' c. (splice_step ^^ m) (h, last (a0 # pre)) = (h', c) \<and>
     c = last (a0 # pre @ [top h..<top h + m]) \<and>
     ring h' a0 (pre @ [top h..<top h + m] @ post) \<and> top h' = top h + m \<and>
     vals h' (pre @ post) = vals h (pre @ post) \<and>
     vals h' [top h..<top h + m] = replicate m (Some CHR ''A'')"
proof (induction m)
  case 0
  then show ?case by (simp add: vals_def)
next
  case (Suc m)
  from Suc.IH[OF Suc.prems] obtain h1 c1 where
    run: "(splice_step ^^ m) (h, last (a0 # pre)) = (h1, c1)"
    and c1: "c1 = last (a0 # pre @ [top h..<top h + m])"
    and r1: "ring h1 a0 (pre @ [top h..<top h + m] @ post)"
    and t1: "top h1 = top h + m"
    and v1: "vals h1 (pre @ post) = vals h (pre @ post)"
    and n1: "vals h1 [top h..<top h + m] = replicate m (Some CHR ''A'')"
    by blast
  let ?news = "[top h..<top h + m]"
  let ?h2 = "insert_after c1 (Some CHR ''A'') h1"
  have r1': "ring h1 a0 ((pre @ ?news) @ post)" using r1 by simp
  have c1': "c1 = last (a0 # (pre @ ?news))" using c1 by simp
  have r2: "ring ?h2 a0 ((pre @ ?news) @ top h1 # post)"
    unfolding c1' by (rule ring_insert_after[OF r1'])
  have lt1: "\<forall>a \<in> set (a0 # pre @ ?news @ post). a < top h1"
    using r1 by (simp add: ring_def)
  have c1_in: "c1 \<in> set (a0 # pre @ ?news)" unfolding c1 by (rule last_in_set) simp
  then have c1_ne: "c1 \<noteq> top h1" using lt1 by auto
  have step: "splice_step (h1, c1) = (?h2, top h1)"
    using c1_ne by (simp add: splice_step_def Let_def insert_after_nxt)
  have upt: "[top h..<top h + Suc m] = ?news @ [top h1]" using t1 by simp
  have "(splice_step ^^ Suc m) (h, last (a0 # pre)) = (?h2, top h1)"
    using run step by simp
  moreover have "top h1 = last (a0 # pre @ [top h..<top h + Suc m])"
    unfolding upt by simp
  moreover have "ring ?h2 a0 (pre @ [top h..<top h + Suc m] @ post)"
    unfolding upt using r2 by simp
  moreover have "top ?h2 = top h + Suc m" using t1 by (simp add: insert_after_top)
  moreover have "vals ?h2 (pre @ post) = vals h (pre @ post)"
  proof -
    have "vals ?h2 (pre @ post) = vals h1 (pre @ post)"
      by (rule vals_insert_after) (use lt1 in auto)
    then show ?thesis using v1 by simp
  qed
  moreover have "vals ?h2 [top h..<top h + Suc m] = replicate (Suc m) (Some CHR ''A'')"
  proof -
    have "vals ?h2 ?news = vals h1 ?news"
      by (rule vals_insert_after) (use lt1 in auto)
    then have a: "vals ?h2 ?news = replicate m (Some CHR ''A'')" using n1 by simp
    have b: "vals ?h2 [top h1] = [Some CHR ''A'']"
      by (simp add: vals_def insert_after_val)
    show ?thesis unfolding upt
      by (simp only: vals_append a b replicate_append_same replicate_Suc)
  qed
  ultimately show ?case by blast
qed

section \<open>Marking a range of cells\<close>

lemma slice_assign_in_bounds:
  assumes "0 \<le> s" "s \<le> e" "e \<le> int (length w)"
  shows "slice_assign w s e (times_list (e - s) c) =
           take (nat s) w @ replicate (nat (e - s)) c @ drop (nat e) w"
proof -
  have "nat s \<le> length w" "nat e \<le> length w" "nat s \<le> nat e" using assms by linarith+
  then show ?thesis using assms
    by (simp add: slice_assign_def slice_index_def times_list_def Let_def min_def max_def)
qed

lemma mark_in_bounds:
  "in_bounds (length w) (te, s, e) \<Longrightarrow>
   mark w (te, s, e) = take (nat s) w @ replicate (nat (e - s)) CHR ''x'' @ drop (nat e) w"
  by (simp add: mark_def in_bounds_def slice_assign_in_bounds)

lemma length_mark: "in_bounds (length w) item \<Longrightarrow> length (mark w item) = length w"
  by (cases item) (auto simp: mark_in_bounds in_bounds_def)

lemma vals_mark_cells_other:
  "set cs \<inter> set as = {} \<Longrightarrow> vals (mark_cells h as) cs = vals h cs"
  by (auto simp: vals_def mark_cells_def)

lemma vals_mark_cells_same:
  "vals (mark_cells h as) as = replicate (length as) (Some CHR ''x'')"
  by (auto simp: vals_def mark_cells_def map_replicate_const[symmetric])

lemma split3:
  assumes "0 \<le> s" "s \<le> e" "e \<le> int (length cs)"
  shows "cs = take (nat s) cs @ take (nat (e - s)) (drop (nat s) cs) @ drop (nat e) cs"
    and "length (take (nat s) cs) = nat s"
    and "length (take (nat (e - s)) (drop (nat s) cs)) = nat (e - s)"
proof -
  have "drop (nat s) cs = take (nat (e - s)) (drop (nat s) cs) @ drop (nat (e - s)) (drop (nat s) cs)"
    by (rule append_take_drop_id[symmetric])
  moreover have "drop (nat (e - s)) (drop (nat s) cs) = drop (nat e) cs"
    using assms by (simp add: nat_diff_distrib nat_le_iff)
  moreover have "cs = take (nat s) cs @ drop (nat s) cs" by simp
  ultimately show "cs = take (nat s) cs @ take (nat (e - s)) (drop (nat s) cs) @ drop (nat e) cs"
    by metis
  show "length (take (nat s) cs) = nat s" using assms by simp
  show "length (take (nat (e - s)) (drop (nat s) cs)) = nat (e - s)" using assms by auto
qed

lemma linked_mark:
  assumes r: "ring h a0 cs" and v: "vals h cs = map Some w"
    and b: "in_bounds (length cs) (te, s, e)"
  shows "\<exists>h' c. (mark_step ^^ nat (e - s)) (h, walk h s (nxt (cell h a0))) = (h', c) \<and>
           ring h' a0 cs \<and> vals h' cs = map Some (mark w (te, s, e)) \<and> top h' = top h"
proof -
  have b': "0 \<le> s" "s \<le> e" "e \<le> int (length cs)" using b by (simp_all add: in_bounds_def)
  define pre where "pre = take (nat s) cs"
  define mid where "mid = take (nat (e - s)) (drop (nat s) cs)"
  define post where "post = drop (nat e) cs"
  have cs: "cs = pre @ mid @ post" and lp: "length pre = nat s" and lm: "length mid = nat (e - s)"
    unfolding pre_def mid_def post_def using split3[OF b'] by blast+
  have lw: "length w = length cs" using v by (metis length_map vals_def)
  have r0: "ring h a0 ([] @ pre @ (mid @ post))" using r cs by simp
  have "nxt (cell h (last (a0 # []))) = hd ((pre @ mid @ post) @ [a0])"
    by (rule ring_succ) (use r cs in simp)
  then have start: "nxt (cell h a0) = hd (pre @ (mid @ post) @ [a0])" by simp
  have w: "walk h s (nxt (cell h a0)) = hd (mid @ post @ [a0])"
    unfolding walk_def start lp[symmetric] using walk_stretch[OF r0] by simp
  have r1: "ring h a0 (pre @ mid @ post)" using r cs by simp
  have m: "(mark_step ^^ nat (e - s)) (h, walk h s (nxt (cell h a0))) = (mark_cells h mid, hd (post @ [a0]))"
    unfolding w lm[symmetric] by (rule mark_stretch[OF r1])
  have d: "distinct (pre @ mid @ post)" using r cs by (simp add: ring_def)
  have v1: "vals (mark_cells h mid) pre = vals h pre"
    by (rule vals_mark_cells_other) (use d in auto)
  have v3: "vals (mark_cells h mid) post = vals h post"
    by (rule vals_mark_cells_other) (use d in auto)
  have vp: "vals h pre = map Some (take (nat s) w)"
    unfolding pre_def using v by (simp add: vals_def take_map[symmetric])
  have vq: "vals h post = map Some (drop (nat e) w)"
    unfolding post_def using v by (simp add: vals_def drop_map[symmetric])
  have bw: "in_bounds (length w) (te, s, e)" using b lw by simp
  have "vals (mark_cells h mid) cs = map Some (mark w (te, s, e))"
    unfolding mark_in_bounds[OF bw]
    by (subst cs) (simp add: vals_append v1 v3 vals_mark_cells_same vp vq lm)
  moreover have "ring (mark_cells h mid) a0 cs" using r by (simp add: ring_mark_cells)
  moreover have "top (mark_cells h mid) = top h" by (simp add: mark_cells_structure)
  ultimately show ?thesis using m by blast
qed

section \<open>The linked genome follows the list genome\<close>

lemma represents_length: "represents K cs L \<Longrightarrow> length (genome L) = length cs"
  by (metis represents_def length_map vals_def)

lemma linked_disable_te_represents:
  assumes rep: "represents K cs L"
    and d: "distinct (map fst (dn @ (te, s, e) # items))"
    and reg: "te_identities L = dn @ (te, s, e) # items"
    and b: "in_bounds (length cs) (te, s, e)"
  shows "\<exists>K'. linked_disable_te te K = Inr K' \<and>
           represents K' cs (L\<lparr>genome := mark (genome L) (te, s, e), te_identities := dn @ items\<rparr>)"
proof -
  have regK: "ll_te_identities K = dn @ (te, s, e) # items" using rep reg by (simp add: represents_def)
  have pop: "dict_pop te (ll_te_identities K) = Inr ((s, e), dn @ items)"
    unfolding regK by (rule dict_pop_middle[OF d])
  then have get: "dict_get (ll_te_identities K) te = Inr (s, e)"
    by (auto simp: dict_pop_def dict_get_def split: option.splits)
  have r: "ring (heap K) (head K) cs" and v: "vals (heap K) cs = map Some (genome L)"
    using rep by (simp_all add: represents_def)
  from linked_mark[OF r v b] obtain h' c where
    m: "(mark_step ^^ nat (e - s)) (heap K, walk (heap K) s (nxt (cell (heap K) (head K)))) = (h', c)"
    and r': "ring h' (head K) cs" and v': "vals h' cs = map Some (mark (genome L) (te, s, e))"
    by blast
  have "linked_disable_te te K = Inr (K\<lparr>ll_te_identities := dn @ items, heap := h'\<rparr>)"
    using get pop m by (simp add: linked_disable_te_def Let_def)
  moreover have "represents (K\<lparr>ll_te_identities := dn @ items, heap := h'\<rparr>) cs
     (L\<lparr>genome := mark (genome L) (te, s, e), te_identities := dn @ items\<rparr>)"
    using rep r' v' by (simp add: represents_def)
  ultimately show ?thesis by blast
qed

lemma linked_loop:
  "represents K cs L \<Longrightarrow> distinct (map fst (dn @ items)) \<Longrightarrow> te_identities L = dn @ items \<Longrightarrow>
   \<forall>item \<in> set items. collides pos item \<longrightarrow> in_bounds (length cs) item \<Longrightarrow>
   \<exists>K'. for_each (linked_insert_step pos len) items K = Inr K' \<and>
     represents K' cs (L\<lparr>genome := marked pos items (genome L),
                          te_identities := dn @ shifted pos len items\<rparr>)"
proof (induction items arbitrary: K L dn)
  case Nil
  then show ?case by (simp add: marked_def shifted_def represents_def)
next
  case (Cons item items)
  obtain te s e where item: "item = (te, s, e)" by (cases item) auto
  have regK: "ll_te_identities K = dn @ item # items"
    using Cons.prems(1,3) by (simp add: represents_def)
  show ?case
  proof (cases "collides pos item")
    case True
    then have se: "s \<le> pos \<and> pos < e" using item by (simp add: collides_def)
    have b: "in_bounds (length cs) (te, s, e)" using Cons.prems(4) True item by simp
    let ?L1 = "L\<lparr>genome := mark (genome L) item, te_identities := dn @ items\<rparr>"
    from linked_disable_te_represents[OF Cons.prems(1) _ _ b, of dn items]
    obtain K1 where dis: "linked_disable_te te K = Inr K1" and rep1: "represents K1 cs ?L1"
      using Cons.prems(2,3) item by auto
    have step: "linked_insert_step pos len item K = Inr K1"
      using se item dis by (simp add: linked_insert_step_def)
    have d: "distinct (map fst (dn @ items))" using Cons.prems(2) by auto
    have "\<exists>K'. for_each (linked_insert_step pos len) items K1 = Inr K' \<and>
       represents K' cs (?L1\<lparr>genome := marked pos items (genome ?L1),
                             te_identities := dn @ shifted pos len items\<rparr>)"
      by (rule Cons.IH[OF rep1 d]) (use Cons.prems(4) in simp_all)
    then show ?thesis using step True
      by (simp add: marked_def shifted_def)
  next
    case False
    then have nse: "\<not> (s \<le> pos \<and> pos < e)" using item by (simp add: collides_def)
    let ?d1 = "(dn @ [shift_item pos len item]) @ items"
    let ?K1 = "K\<lparr>ll_te_identities := ?d1\<rparr>"
    let ?L1 = "L\<lparr>te_identities := ?d1\<rparr>"
    have step: "linked_insert_step pos len item K = Inr ?K1"
    proof (cases "s > pos")
      case True
      have "distinct (map fst (dn @ (te, s, e) # items))" using Cons.prems(2) item by simp
      then show ?thesis using True nse regK item
        by (simp add: linked_insert_step_def dict_set_middle shift_item_def)
    next
      case F2: False
      then show ?thesis using nse regK item
        by (simp add: linked_insert_step_def shift_item_def)
    qed
    have rep1: "represents ?K1 cs ?L1" using Cons.prems(1) by (simp add: represents_def)
    have fst_shift: "fst (shift_item pos len item) = fst item"
      using item by (simp add: shift_item_def)
    have d: "distinct (map fst ?d1)" using Cons.prems(2) fst_shift by auto
    have "\<exists>K'. for_each (linked_insert_step pos len) items ?K1 = Inr K' \<and>
       represents K' cs (?L1\<lparr>genome := marked pos items (genome ?L1),
                             te_identities := (dn @ [shift_item pos len item]) @ shifted pos len items\<rparr>)"
      by (rule Cons.IH[OF rep1 d]) (use Cons.prems(4) in simp_all)
    then show ?thesis using step False
      by (simp add: marked_def shifted_def)
  qed
qed

lemma ring_head_succ: "ring h a0 cs \<Longrightarrow> nxt (cell h a0) = hd (cs @ [a0])"
  using ring_succ[of h a0 "[]" cs] by simp

lemma ring_walk_nth:
  assumes r: "ring h a0 cs" and j: "j \<le> length cs"
  shows "walk h (int j) (nxt (cell h a0)) = (cs @ [a0]) ! j"
proof -
  have r0: "ring h a0 ([] @ take j cs @ drop j cs)" using r by simp
  have lj: "length (take j cs) = j" using j by simp
  have "((\<lambda>a. nxt (cell h a)) ^^ length (take j cs)) (hd (take j cs @ drop j cs @ [a0]))
          = hd (drop j cs @ [a0])"
    by (rule walk_stretch[OF r0])
  then have "((\<lambda>a. nxt (cell h a)) ^^ j) (hd (cs @ [a0])) = hd (drop j cs @ [a0])"
    unfolding lj by (simp only: append_assoc[symmetric] append_take_drop_id)
  moreover have "hd (drop j cs @ [a0]) = (cs @ [a0]) ! j"
  proof -
    have "drop j cs @ [a0] = drop j (cs @ [a0])" using j by simp
    moreover have "hd (drop j (cs @ [a0])) = (cs @ [a0]) ! j"
      by (rule hd_drop_conv_nth) (use j in simp)
    ultimately show ?thesis by simp
  qed
  ultimately show ?thesis by (simp add: walk_def ring_head_succ[OF r])
qed

lemma last_take_nth: "k \<le> length cs \<Longrightarrow> last (a0 # take k cs) = (a0 # cs) ! k"
proof (cases k)
  case 0
  then show ?thesis by simp
next
  case (Suc j)
  assume "k \<le> length cs"
  then have j: "j < length cs" using Suc by simp
  then have "take (Suc j) cs = take j cs @ [cs ! j]" by (rule take_Suc_conv_app_nth)
  then show ?thesis using Suc by simp
qed

lemma linked_cursor:
  assumes r: "ring h a0 cs" and p: "pos \<le> int (length cs)"
  shows "walk h (pos - 1) (nxt (cell h a0)) = last (a0 # take (linked_index pos (length cs)) cs)"
proof (cases "1 \<le> pos")
  case True
  define j where "j = nat (pos - 1)"
  have j: "j < length cs" "pos - 1 = int j" "linked_index pos (length cs) = Suc j"
    using True p by (auto simp: j_def linked_index_def)
  have "walk h (int j) (nxt (cell h a0)) = (cs @ [a0]) ! j"
    by (rule ring_walk_nth[OF r]) (use j in simp)
  also have "\<dots> = (a0 # cs) ! Suc j" using j by (simp add: nth_append)
  also have "\<dots> = last (a0 # take (Suc j) cs)"
    by (rule last_take_nth[symmetric]) (use j in simp)
  finally show ?thesis using j by simp
next
  case False
  then have "nat (pos - 1) = 0" by simp
  then have w: "walk h (pos - 1) (nxt (cell h a0)) = hd (cs @ [a0])"
    by (simp add: walk_def ring_head_succ[OF r])
  show ?thesis
  proof (cases cs)
    case Nil
    then show ?thesis using w False by (simp add: linked_index_def)
  next
    case (Cons c cs')
    then show ?thesis using w False by (simp add: linked_index_def)
  qed
qed

lemma linked_index_le: "pos \<le> int n \<Longrightarrow> linked_index pos n \<le> n"
  by (auto simp: linked_index_def)

lemma linked_insert_te_represents:
  assumes rep: "represents K cs L"
    and d: "distinct (map fst (te_identities L))"
    and b: "\<forall>item \<in> set (te_identities L). collides pos item \<longrightarrow> in_bounds (length cs) item"
    and p: "pos \<le> glength K" and l: "0 \<le> len"
  shows "\<exists>K' cs'. linked_insert_te pos len K = Inr (te_count L + 1, K') \<and>
     represents K' cs'
       \<lparr>genome = take (linked_index pos (length cs)) (marked pos (te_identities L) (genome L))
                  @ replicate (nat len) CHR ''A''
                  @ drop (linked_index pos (length cs)) (marked pos (te_identities L) (genome L)),
        te_identities = dict_set (te_count L + 1) (pos, pos + len) (shifted pos len (te_identities L)),
        te_count = te_count L + 1\<rparr>"
proof -
  define w1 where "w1 = marked pos (te_identities L) (genome L)"
  define d1 where "d1 = shifted pos len (te_identities L)"
  define k where "k = linked_index pos (length cs)"
  let ?L1 = "L\<lparr>genome := w1, te_identities := d1\<rparr>"
  have "\<exists>K1. for_each (linked_insert_step pos len) (te_identities L) K = Inr K1 \<and>
      represents K1 cs (L\<lparr>genome := marked pos (te_identities L) (genome L),
                           te_identities := [] @ shifted pos len (te_identities L)\<rparr>)"
    by (rule linked_loop[OF rep]) (use d b in simp_all)
  then obtain K1 where loop: "for_each (linked_insert_step pos len) (te_identities L) K = Inr K1"
    and rep1: "represents K1 cs ?L1"
    by (auto simp: w1_def d1_def)
  have regK: "ll_te_identities K = te_identities L" and gl: "glength K = int (length cs)"
    using rep by (simp_all add: represents_def)
  have r1: "ring (heap K1) (head K1) cs" and v1: "vals (heap K1) cs = map Some w1"
    and g1: "glength K1 = int (length cs)" and i1: "ll_te_identities K1 = d1"
    and c1: "ll_te_count K1 = te_count L"
    using rep1 by (simp_all add: represents_def)
  have kle: "k \<le> length cs" unfolding k_def by (rule linked_index_le) (use p gl in simp)
  have cur: "walk (heap K1) (pos - 1) (nxt (cell (heap K1) (head K1))) = last (head K1 # take k cs)"
    unfolding k_def by (rule linked_cursor[OF r1]) (use p gl in simp)
  have r1': "ring (heap K1) (head K1) (take k cs @ drop k cs)" using r1 by simp
  from splice_stretch[OF r1', of "nat len"] obtain h' c where
    run: "(splice_step ^^ nat len) (heap K1, last (head K1 # take k cs)) = (h', c)"
    and r': "ring h' (head K1) (take k cs @ [top (heap K1)..<top (heap K1) + nat len] @ drop k cs)"
    and vold: "vals h' (take k cs @ drop k cs) = vals (heap K1) (take k cs @ drop k cs)"
    and vnew: "vals h' [top (heap K1)..<top (heap K1) + nat len] = replicate (nat len) (Some CHR ''A'')"
    by blast
  define cs' where "cs' = take k cs @ [top (heap K1)..<top (heap K1) + nat len] @ drop k cs"
  define K' where "K' = K1\<lparr>ll_te_count := te_count L + 1,
      ll_te_identities := dict_set (te_count L + 1) (pos, pos + len) d1,
      heap := h', glength := int (length cs) + len\<rparr>"
  have res: "linked_insert_te pos len K = Inr (te_count L + 1, K')"
    using p loop run cur c1 i1 g1 regK
    by (simp add: linked_insert_te_def Let_def K'_def)
  have vo: "vals h' cs = map Some w1" using vold v1 by simp
  have va: "vals h' (take k cs) = map Some (take k w1)"
    using vo by (simp add: vals_def take_map[symmetric])
  have vb: "vals h' (drop k cs) = map Some (drop k w1)"
    using vo by (simp add: vals_def drop_map[symmetric])
  have "vals h' cs' = map Some (take k w1 @ replicate (nat len) CHR ''A'' @ drop k w1)"
    unfolding cs'_def by (simp add: vals_append va vb vnew)
  moreover have "int (length cs) + len = int (length cs')"
    using l kle by (simp add: cs'_def)
  ultimately have "represents K' cs'
       \<lparr>genome = take k w1 @ replicate (nat len) CHR ''A'' @ drop k w1,
        te_identities = dict_set (te_count L + 1) (pos, pos + len) d1,
        te_count = te_count L + 1\<rparr>"
    using r' by (simp add: represents_def K'_def cs'_def)
  then show ?thesis using res unfolding w1_def d1_def k_def by blast
qed

lemma append_loop:
  "\<exists>h. ((\<lambda>h. insert_after (prev (cell h 0)) (Some CHR ''-'') h) ^^ m)
          \<lparr>cell = (\<lambda>_. \<lparr>val = None, prev = 0, nxt = 0\<rparr>), top = Suc 0\<rparr> = h \<and>
       ring h 0 [1..<Suc m] \<and> top h = Suc m \<and> vals h [1..<Suc m] = replicate m (Some CHR ''-'')"
proof (induction m)
  case 0
  show ?case by (simp add: ring_def vals_def)
next
  case (Suc m)
  then obtain h where run: "((\<lambda>h. insert_after (prev (cell h 0)) (Some CHR ''-'') h) ^^ m)
          \<lparr>cell = (\<lambda>_. \<lparr>val = None, prev = 0, nxt = 0\<rparr>), top = Suc 0\<rparr> = h"
    and r: "ring h 0 [1..<Suc m]" and t: "top h = Suc m"
    and v: "vals h [1..<Suc m] = replicate m (Some CHR ''-'')"
    by blast
  let ?h' = "insert_after (prev (cell h 0)) (Some CHR ''-'') h"
  have pv: "prev (cell h 0) = last (0 # [1..<Suc m])" using r by (simp add: ring_def)
  have r0: "ring h 0 ([1..<Suc m] @ [])" using r by simp
  have "ring (insert_after (last (0 # [1..<Suc m])) (Some CHR ''-'') h) 0 ([1..<Suc m] @ top h # [])"
    by (rule ring_insert_after[OF r0])
  then have r': "ring ?h' 0 [1..<Suc (Suc m)]" using pv t by simp
  have "vals ?h' [1..<Suc m] = vals h [1..<Suc m]"
    by (rule vals_insert_after) (use t in auto)
  moreover have "vals ?h' [Suc m] = [Some CHR ''-'']" using t by (simp add: vals_def insert_after_val)
  moreover have "[1..<Suc (Suc m)] = [1..<Suc m] @ [Suc m]" by simp
  ultimately have v': "vals ?h' [1..<Suc (Suc m)] = replicate (Suc m) (Some CHR ''-'')"
    using v by (simp only: vals_append replicate_append_same replicate_Suc)
  have "top ?h' = Suc (Suc m)" using t by (simp add: insert_after_top)
  then show ?case using run r' v' by simp
qed

lemma linked_init_represents:
  assumes "0 \<le> n"
  shows "represents (linked_init n) [1..<Suc (nat n)] (list_init n)"
proof -
  from append_loop[of "nat n"] show ?thesis using assms
    by (simp add: represents_def linked_init_def list_init_def Let_def times_list_def del: upt_Suc)
qed

lemma linked_str_represents:
  assumes "represents K cs L"
  shows "linked_str K = Inr (list_str L)"
proof -
  have r: "ring (heap K) (head K) ([] @ cs @ [])" and v: "vals (heap K) cs = map Some (genome L)"
    and g: "glength K = int (length cs)"
    using assms by (simp_all add: represents_def)
  have "(collect_step (heap K) ^^ length cs) ([], hd (cs @ [] @ [head K]))
          = ([] @ vals (heap K) cs, hd ([] @ [head K]))"
    by (rule collect_stretch[OF r])
  moreover have "nxt (cell (heap K) (head K)) = hd (cs @ [head K])"
    by (rule ring_head_succ) (use r in simp)
  ultimately show ?thesis using v g
    by (simp add: linked_str_def join_def list_str_def comp_def)
qed

lemma linked_obs_represents:
  assumes "represents K cs L"
  shows "linked_len K = list_len L" "linked_active_tes K = list_active_tes L"
  using assms represents_length[OF assms]
  by (simp_all add: represents_def linked_len_def list_len_def linked_active_tes_def list_active_tes_def)

section \<open>Concrete runs\<close>

lemma linked_insert_te_eval:
  assumes rep: "represents K cs L"
    and d: "distinct (map fst (te_identities L))"
    and b: "\<forall>item \<in> set (te_identities L). collides pos item \<longrightarrow> in_bounds (length (genome L)) item"
    and p: "pos \<le> list_len L" and l: "0 \<le> len"
  shows "\<exists>K' cs'. linked_insert_te pos len K = Inr (te_count L + 1, K') \<and>
           represents K' cs' (linked_insert_te_abs pos len L)"
proof -
  have n: "length (genome L) = length cs" by (rule represents_length[OF rep])
  have p': "pos \<le> glength K" using p rep n by (simp add: represents_def list_len_def)
  show ?thesis
    using linked_insert_te_represents[OF rep d _ p' l] b
    by (simp add: linked_insert_te_abs_def Let_def n)
qed

lemmas eval_defs = linked_insert_te_abs_def Let_def marked_def shifted_def collides_def shift_item_def
  mark_def slice_assign_def slice_index_def slice_upto_def slice_from_def times_list_def
  linked_index_def dict_set_def list_init_def list_len_def in_bounds_def

lemma linked_first_insert:
  assumes "0 \<le> n" "pos \<le> n" "0 \<le> len"
  shows "\<exists>K cs. linked_insert_te pos len (linked_init n) = Inr (1, K) \<and>
           represents K cs (linked_insert_te_abs pos len (list_init n))"
  using linked_insert_te_eval[OF linked_init_represents[OF assms(1)], of pos len] assms
  by (simp add: list_init_def list_len_def times_list_def)

lemma linked_pos0:
  "\<exists>K cs. linked_insert_te 0 2 (linked_init 10) = Inr (1, K) \<and>
     represents K cs \<lparr>genome = ''-AA---------'', te_identities = [(1, (0, 2))], te_count = 1\<rparr>"
  using linked_first_insert[of 10 0 2] by (simp add: eval_defs eval_nat_numeral)

lemma linked_pos10:
  "\<exists>K cs. linked_insert_te 10 2 (linked_init 10) = Inr (1, K) \<and>
     represents K cs \<lparr>genome = ''----------AA'', te_identities = [(1, (10, 12))], te_count = 1\<rparr>"
  using linked_first_insert[of 10 10 2] by (simp add: eval_defs eval_nat_numeral)

lemma list_pos0:
  "list_insert_te 0 2 (list_init 10) =
     Inr (1, \<lparr>genome = ''AA----------'', te_identities = [(1, (0, 2))], te_count = 1\<rparr>)"
  by (simp add: list_insert_te_def eval_defs eval_nat_numeral)

lemma list_pos10:
  "list_insert_te 10 2 (list_init 10) =
     Inr (1, \<lparr>genome = ''AA----------'', te_identities = [(1, (0, 2))], te_count = 1\<rparr>)"
  by (simp add: list_insert_te_def eval_defs eval_nat_numeral)

lemma list_scenario_1_3:
  "list_insert_te 1 2 (list_init 8) =
     Inr (1, \<lparr>genome = ''-AA-------'', te_identities = [(1, (1, 3))], te_count = 1\<rparr>)"
  by (simp add: list_insert_te_def eval_defs eval_nat_numeral)

lemma linked_scenario_1_3:
  "\<exists>K cs. linked_insert_te 1 2 (linked_init 8) = Inr (1, K) \<and>
     represents K cs \<lparr>genome = ''-AA-------'', te_identities = [(1, (1, 3))], te_count = 1\<rparr>"
  using linked_first_insert[of 8 1 2] by (simp add: eval_defs eval_nat_numeral)

lemma list_copy_minus_5:
  "list_copy_te 1 (- 5) \<lparr>genome = ''-AA-------'', te_identities = [(1, (1, 3))], te_count = 1\<rparr> =
     Inr (Some 2, \<lparr>genome = ''-AA---AA----'', te_identities = [(1, (1, 3)), (2, (6, 8))], te_count = 2\<rparr>)"
  by (simp add: list_copy_te_def list_insert_te_def list_insert_step_def eval_defs eval_nat_numeral)

section \<open>Ranges after an insertion\<close>

lemma map_of_shifted:
  "distinct (map fst d) \<Longrightarrow> map_of d t = Some (s, e) \<Longrightarrow>
   map_of (shifted pos len d) t =
     (if s \<le> pos \<and> pos < e then None
      else if pos < s then Some (s + len, e + len) else Some (s, e))"
proof (induction d)
  case Nil
  then show ?case by simp
next
  case (Cons item d)
  obtain t' s' e' where item: "item = (t', s', e')" by (cases item) auto
  have fst_shift: "fst (shift_item pos len item) = t'"
    using item by (simp add: shift_item_def)
  show ?case
  proof (cases "t' = t")
    case True
    then have se: "s' = s" "e' = e" using Cons.prems(2) item by simp_all
    have notin: "t \<notin> fst ` set d" using Cons.prems(1) item True by auto
    have "fst ` set (shifted pos len d) \<subseteq> fst ` set d"
      by (force simp: shifted_def shift_item_def split: prod.splits if_splits)
    then have "map_of (shifted pos len d) t = None"
      using notin by (meson map_of_eq_None_iff subsetD)
    then show ?thesis using True se item
      by (simp add: shifted_def collides_def shift_item_def)
  next
    case False
    then have "map_of d t = Some (s, e)" using Cons.prems(2) item by simp
    moreover have "distinct (map fst d)" using Cons.prems(1) by simp
    ultimately have ih: "map_of (shifted pos len d) t =
       (if s \<le> pos \<and> pos < e then None
        else if pos < s then Some (s + len, e + len) else Some (s, e))"
      by (rule Cons.IH[rotated])
    have "map_of (shifted pos len (item # d)) t = map_of (shifted pos len d) t"
    proof (cases "collides pos item")
      case True
      then show ?thesis by (simp add: shifted_def)
    next
      case F: False
      then have "shifted pos len (item # d) = shift_item pos len item # shifted pos len d"
        by (simp add: shifted_def)
      then show ?thesis using fst_shift False
        by (cases "shift_item pos len item") auto
    qed
    then show ?thesis using ih by simp
  qed
qed

lemma map_of_dict_set_other: "t \<noteq> k \<Longrightarrow> map_of (dict_set k v d) t = map_of d t"
  by (simp add: dict_set_def update_conv')

lemma map_of_dict_set_same: "map_of (dict_set k v d) k = Some v"
  by (simp add: dict_set_def update_conv')

lemma list_insert_te_shift:
  assumes d: "distinct (map fst (te_identities g))"
    and ids: "\<forall>k \<in> set (list_active_tes g). k \<le> te_count g"
    and p: "p \<le> list_len g" and n: "0 < list_len g"
    and t: "map_of (te_identities g) t = Some (s, e)"
  shows "\<exists>g'. list_insert_te p len g = Inr (te_count g + 1, g') \<and>
           (p mod list_len g < s \<longrightarrow> map_of (te_identities g') t = Some (s + len, e + len)) \<and>
           (e \<le> p mod list_len g \<longrightarrow> s \<le> e \<longrightarrow> map_of (te_identities g') t = Some (s, e))"
proof -
  have ne: "genome g \<noteq> []" and p': "p \<le> int (length (genome g))"
    using n p by (auto simp: list_len_def)
  have "t \<in> set (list_active_tes g)"
    using t by (metis list_active_tes_def map_of_eq_None_iff option.distinct(1) set_map)
  then have fresh: "t \<noteq> te_count g + 1" using ids by auto
  show ?thesis
    unfolding list_insert_te_eq[OF d p' ne] Let_def list_len_def
    by (auto simp: map_of_dict_set_other[OF fresh] map_of_shifted[OF d t])
qed

lemma same_links_refl: "same_links h h"
  by (simp add: same_links_def)

lemma same_links_trans: "same_links h h1 \<Longrightarrow> same_links h1 h2 \<Longrightarrow> same_links h h2"
  unfolding same_links_def by metis

lemma same_links_mark_cells: "same_links h (mark_cells h as)"
  by (simp add: same_links_def mark_cells_def)

lemma mark_loop_same_links:
  "\<exists>h' c'. (mark_step ^^ m) (h, c) = (h', c') \<and> same_links h h'"
proof (induction m)
  case 0
  show ?case by (simp add: same_links_refl)
next
  case (Suc m)
  then obtain h1 c1 where run: "(mark_step ^^ m) (h, c) = (h1, c1)" and s: "same_links h h1"
    by blast
  have "same_links h (mark_cells h1 [c1])"
    by (rule same_links_trans[OF s same_links_mark_cells])
  then show ?case using run by (simp add: mark_step_eq)
qed

lemma same_links_ring: "same_links h h' \<Longrightarrow> ring h a0 cs \<Longrightarrow> ring h' a0 cs"
  by (simp add: same_links_def ring_def)

lemma same_links_vals:
  "same_links h h' \<Longrightarrow> None \<notin> set (vals h cs) \<Longrightarrow> None \<notin> set (vals h' cs)"
  unfolding same_links_def vals_def by (auto simp: image_iff) (metis option.distinct(1))

lemma linked_disable_te_general:
  assumes "map_of (ll_te_identities K) te = Some (s, e)"
  shows "\<exists>h'. linked_disable_te te K =
           Inr (K\<lparr>ll_te_identities := AList.delete te (ll_te_identities K), heap := h'\<rparr>) \<and>
           same_links (heap K) h'"
proof -
  obtain h' c' where m:
    "(mark_step ^^ nat (e - s)) (heap K, walk (heap K) s (nxt (cell (heap K) (head K)))) = (h', c')"
    and sl: "same_links (heap K) h'"
    using mark_loop_same_links by blast
  have "linked_disable_te te K =
      Inr (K\<lparr>ll_te_identities := AList.delete te (ll_te_identities K), heap := h'\<rparr>)"
    using assms m by (simp add: linked_disable_te_def dict_get_def dict_pop_def Let_def)
  then show ?thesis using sl by blast
qed

lemma linked_loop_general:
  "distinct (map fst (dn @ items)) \<Longrightarrow> ll_te_identities K = dn @ items \<Longrightarrow>
   \<exists>h'. for_each (linked_insert_step pos len) items K =
           Inr (K\<lparr>ll_te_identities := dn @ shifted pos len items, heap := h'\<rparr>) \<and>
         same_links (heap K) h'"
proof (induction items arbitrary: K dn)
  case Nil
  show ?case
    by (rule exI[of _ "heap K"]) (use Nil in \<open>simp add: shifted_def same_links_refl\<close>)
next
  case (Cons item items)
  obtain te s e where item: "item = (te, s, e)" by (cases item) auto
  have dd: "distinct (map fst (dn @ (te, s, e) # items))" using Cons.prems(1) item by simp
  show ?case
  proof (cases "collides pos item")
    case True
    then have se: "s \<le> pos \<and> pos < e" using item by (simp add: collides_def)
    have pop: "dict_pop te (ll_te_identities K) = Inr ((s, e), dn @ items)"
      using Cons.prems(2) item dict_pop_middle[OF dd] by simp
    then have look: "map_of (ll_te_identities K) te = Some (s, e)"
      and del: "AList.delete te (ll_te_identities K) = dn @ items"
      by (auto simp: dict_pop_def split: option.splits)
    from linked_disable_te_general[OF look] obtain h1 where
      dis: "linked_disable_te te K = Inr (K\<lparr>ll_te_identities := dn @ items, heap := h1\<rparr>)"
      and s1: "same_links (heap K) h1"
      using del by auto
    let ?K1 = "K\<lparr>ll_te_identities := dn @ items, heap := h1\<rparr>"
    have step: "linked_insert_step pos len item K = Inr ?K1"
      using se item dis by (simp add: linked_insert_step_def)
    have d: "distinct (map fst (dn @ items))" using Cons.prems(1) by auto
    from Cons.IH[OF d, of ?K1] obtain h' where
      run: "for_each (linked_insert_step pos len) items ?K1 =
              Inr (?K1\<lparr>ll_te_identities := dn @ shifted pos len items, heap := h'\<rparr>)"
      and s2: "same_links h1 h'"
      by auto
    have "same_links (heap K) h'" by (rule same_links_trans[OF s1 s2])
    then show ?thesis using step run True by (auto simp: shifted_def)
  next
    case False
    then have nse: "\<not> (s \<le> pos \<and> pos < e)" using item by (simp add: collides_def)
    let ?d1 = "(dn @ [shift_item pos len item]) @ items"
    let ?K1 = "K\<lparr>ll_te_identities := ?d1\<rparr>"
    have step: "linked_insert_step pos len item K = Inr ?K1"
    proof (cases "s > pos")
      case True
      then show ?thesis using nse Cons.prems(2) item dd
        by (simp add: linked_insert_step_def dict_set_middle shift_item_def)
    next
      case F2: False
      then show ?thesis using nse Cons.prems(2) item
        by (simp add: linked_insert_step_def shift_item_def)
    qed
    have fst_shift: "fst (shift_item pos len item) = fst item"
      using item by (simp add: shift_item_def)
    have d: "distinct (map fst ?d1)" using Cons.prems(1) fst_shift by auto
    from Cons.IH[OF d, of ?K1] obtain h' where
      run: "for_each (linked_insert_step pos len) items ?K1 =
              Inr (?K1\<lparr>ll_te_identities := (dn @ [shift_item pos len item]) @ shifted pos len items,
                       heap := h'\<rparr>)"
      and s2: "same_links (heap ?K1) h'"
      by auto
    show ?thesis using step run s2 False by (auto simp: shifted_def)
  qed
qed

lemma linked_insert_te_general:
  assumes d: "distinct (map fst (ll_te_identities K))" and p: "pos \<le> glength K"
  shows "\<exists>h1 h'. linked_insert_te pos len K =
           Inr (ll_te_count K + 1,
                K\<lparr>ll_te_identities := dict_set (ll_te_count K + 1) (pos, pos + len)
                                         (shifted pos len (ll_te_identities K)),
                  ll_te_count := ll_te_count K + 1, heap := h', glength := glength K + len\<rparr>) \<and>
         same_links (heap K) h1 \<and>
         h' = fst ((splice_step ^^ nat len) (h1, walk h1 (pos - 1) (nxt (cell h1 (head K)))))"
proof -
  from linked_loop_general[of "[]" "ll_te_identities K" K pos len] obtain h1 where
    loop: "for_each (linked_insert_step pos len) (ll_te_identities K) K =
             Inr (K\<lparr>ll_te_identities := shifted pos len (ll_te_identities K), heap := h1\<rparr>)"
    and s1: "same_links (heap K) h1"
    using d by auto
  define h' where "h' = fst ((splice_step ^^ nat len) (h1, walk h1 (pos - 1) (nxt (cell h1 (head K)))))"
  have "linked_insert_te pos len K =
           Inr (ll_te_count K + 1,
                K\<lparr>ll_te_identities := dict_set (ll_te_count K + 1) (pos, pos + len)
                                         (shifted pos len (ll_te_identities K)),
                  ll_te_count := ll_te_count K + 1, heap := h', glength := glength K + len\<rparr>)"
    using p loop by (simp add: linked_insert_te_def Let_def split_beta h'_def)
  then show ?thesis using s1 h'_def by blast
qed

lemma linked_insert_te_shift:
  assumes d: "distinct (map fst (ll_te_identities K))"
    and ids: "\<forall>k \<in> set (linked_active_tes K). k \<le> ll_te_count K"
    and p: "p \<le> linked_len K"
    and t: "map_of (ll_te_identities K) t = Some (s, e)"
  shows "\<exists>K'. linked_insert_te p len K = Inr (ll_te_count K + 1, K') \<and>
           (p < s \<longrightarrow> map_of (ll_te_identities K') t = Some (s + len, e + len)) \<and>
           (e \<le> p \<longrightarrow> s \<le> e \<longrightarrow> map_of (ll_te_identities K') t = Some (s, e))"
proof -
  have "t \<in> set (linked_active_tes K)"
    using t by (metis linked_active_tes_def map_of_eq_None_iff option.distinct(1) set_map)
  then have fresh: "t \<noteq> ll_te_count K + 1" using ids by auto
  have p': "p \<le> glength K" using p by (simp add: linked_len_def)
  from linked_insert_te_general[OF d p', of len] show ?thesis
    by (auto simp: map_of_dict_set_other[OF fresh] map_of_shifted[OF d t])
qed

lemma list_scenario_5_3:
  "list_insert_te 5 3 (list_init 10) =
     Inr (1, \<lparr>genome = ''-----AAA-----'', te_identities = [(1, (5, 8))], te_count = 1\<rparr>)"
  by (simp add: list_insert_te_def eval_defs eval_nat_numeral)

lemma list_scenario_2_2:
  "list_insert_te 2 2 \<lparr>genome = ''-----AAA-----'', te_identities = [(1, (5, 8))], te_count = 1\<rparr> =
     Inr (2, \<lparr>genome = ''--AA---AAA-----'', te_identities = [(1, (7, 10)), (2, (2, 4))], te_count = 2\<rparr>)"
  by (simp add: list_insert_te_def list_insert_step_def eval_defs eval_nat_numeral)

lemma linked_scenario_5_3:
  "\<exists>K cs. linked_insert_te 5 3 (linked_init 10) = Inr (1, K) \<and>
     represents K cs \<lparr>genome = ''-----AAA-----'', te_identities = [(1, (5, 8))], te_count = 1\<rparr>"
  using linked_first_insert[of 10 5 3] by (simp add: eval_defs eval_nat_numeral)

lemma linked_scenario_2_2:
  assumes "represents K cs \<lparr>genome = ''-----AAA-----'', te_identities = [(1, (5, 8))], te_count = 1\<rparr>"
  shows "\<exists>K' cs'. linked_insert_te 2 2 K = Inr (2, K') \<and>
     represents K' cs'
       \<lparr>genome = ''--AA---AAA-----'', te_identities = [(1, (7, 10)), (2, (2, 4))], te_count = 2\<rparr>"
proof -
  have "\<exists>K' cs'. linked_insert_te 2 2 K =
      Inr (te_count \<lparr>genome = ''-----AAA-----'', te_identities = [(1, (5, 8))], te_count = 1\<rparr> + 1, K') \<and>
      represents K' cs' (linked_insert_te_abs 2 2
        \<lparr>genome = ''-----AAA-----'', te_identities = [(1, (5, 8))], te_count = 1\<rparr>)"
    by (rule linked_insert_te_eval[OF assms]) (simp_all add: eval_defs)
  then show ?thesis by (simp add: eval_defs eval_nat_numeral)
qed

lemma list_scenario_shift:
  "case list_insert_te 5 3 (list_init 10) of
      Inl e \<Rightarrow> False
    | Inr (id1, g1) \<Rightarrow>
        list_active_tes g1 = [id1] \<and> map_of (te_identities g1) id1 = Some (5, 8) \<and>
        list_len g1 = 13 \<and> list_str g1 = ''-----AAA-----'' \<and>
        (case list_insert_te 2 2 g1 of
           Inl e \<Rightarrow> False
         | Inr (id2, g2) \<Rightarrow>
             list_active_tes g2 = [id1, id2] \<and> id2 \<noteq> id1 \<and>
             map_of (te_identities g2) id1 = Some (7, 10) \<and>
             map_of (te_identities g2) id2 = Some (2, 4) \<and>
             list_len g2 = 15 \<and> list_str g2 = ''--AA---AAA-----'')"
  by (simp add: list_scenario_5_3 list_scenario_2_2 list_active_tes_def list_len_def list_str_def)

lemma linked_scenario_shift:
  "case linked_insert_te 5 3 (linked_init 10) of
      Inl e \<Rightarrow> False
    | Inr (id1, k1) \<Rightarrow>
        linked_active_tes k1 = [id1] \<and> map_of (ll_te_identities k1) id1 = Some (5, 8) \<and>
        linked_len k1 = 13 \<and> linked_str k1 = Inr ''-----AAA-----'' \<and>
        (case linked_insert_te 2 2 k1 of
           Inl e \<Rightarrow> False
         | Inr (id2, k2) \<Rightarrow>
             linked_active_tes k2 = [id1, id2] \<and> id2 \<noteq> id1 \<and>
             map_of (ll_te_identities k2) id1 = Some (7, 10) \<and>
             map_of (ll_te_identities k2) id2 = Some (2, 4) \<and>
             linked_len k2 = 15 \<and> linked_str k2 = Inr ''--AA---AAA-----'')"
proof -
  obtain K1 cs1 where k1: "linked_insert_te 5 3 (linked_init 10) = Inr (1, K1)"
    and rep1: "represents K1 cs1 \<lparr>genome = ''-----AAA-----'', te_identities = [(1, (5, 8))], te_count = 1\<rparr>"
    using linked_scenario_5_3 by blast
  obtain K2 cs2 where k2: "linked_insert_te 2 2 K1 = Inr (2, K2)"
    and rep2: "represents K2 cs2
       \<lparr>genome = ''--AA---AAA-----'', te_identities = [(1, (7, 10)), (2, (2, 4))], te_count = 2\<rparr>"
    using linked_scenario_2_2[OF rep1] by blast
  have r1: "ll_te_identities K1 = [(1, (5, 8))]" using rep1 by (simp add: represents_def)
  have r2: "ll_te_identities K2 = [(1, (7, 10)), (2, (2, 4))]" using rep2 by (simp add: represents_def)
  show ?thesis
    using linked_str_represents[OF rep1] linked_obs_represents[OF rep1]
      linked_str_represents[OF rep2] linked_obs_represents[OF rep2]
    by (simp add: k1 k2 r1 r2 list_active_tes_def list_len_def list_str_def linked_active_tes_def)
qed

section \<open>Invariants of the two classes\<close>

lemma length_foldl_mark:
  "\<forall>item \<in> set items. in_bounds (length w) item \<Longrightarrow> length (foldl mark w items) = length w"
proof (induction items arbitrary: w)
  case Nil
  then show ?case by simp
next
  case (Cons item items)
  have l: "length (mark w item) = length w" by (rule length_mark) (use Cons.prems in simp)
  have "length (foldl mark (mark w item) items) = length (mark w item)"
    by (rule Cons.IH) (use Cons.prems l in simp)
  then show ?case using l by simp
qed

lemma length_marked:
  "\<forall>item \<in> set d. collides pos item \<longrightarrow> in_bounds (length w) item \<Longrightarrow>
   length (marked pos d w) = length w"
  unfolding marked_def by (rule length_foldl_mark) simp

lemma set_shifted:
  "item \<in> set (shifted pos len d) \<Longrightarrow>
   \<exists>orig \<in> set d. \<not> collides pos orig \<and> item = shift_item pos len orig"
  by (auto simp: shifted_def)

lemma fst_shift_item: "fst (shift_item pos len item) = fst item"
  by (cases item) (simp add: shift_item_def)

lemma keys_shifted: "map fst (shifted pos len d) = map fst (filter (\<lambda>item. \<not> collides pos item) d)"
  by (simp add: shifted_def fst_shift_item comp_def)

lemma distinct_shifted: "distinct (map fst d) \<Longrightarrow> distinct (map fst (shifted pos len d))"
  unfolding keys_shifted by (rule distinct_map_filter)

lemma set_dict_set: "set (dict_set k v d) \<subseteq> insert (k, v) (set d)"
  unfolding dict_set_def by (induction d) auto

lemma distinct_dict_set: "distinct (map fst d) \<Longrightarrow> distinct (map fst (dict_set k v d))"
  by (simp add: dict_set_def distinct_update)

lemma in_bounds_shift:
  assumes "in_bounds n orig" "\<not> collides pos orig" "0 \<le> pos" "pos \<le> int n" "0 \<le> len"
  shows "in_bounds (n + nat len) (shift_item pos len orig)"
  using assms by (cases orig) (auto simp: in_bounds_def collides_def shift_item_def)

lemma list_insert_te_wf:
  assumes wf: "list_wf g" and l: "0 \<le> len" and r: "list_insert_te p len g = Inr (i, g')"
  shows "list_wf g' \<and> list_len g' = list_len g + len \<and> i = te_count g + 1"
proof -
  let ?n = "length (genome g)"
  have p: "p \<le> int ?n" and ne: "genome g \<noteq> []"
    using r by (auto simp: list_insert_te_def split: if_splits)
  have d: "distinct (map fst (te_identities g))" using wf by (simp add: list_wf_def)
  have b: "\<forall>item \<in> set (te_identities g). in_bounds ?n item"
    and ids: "\<forall>item \<in> set (te_identities g). fst item \<le> te_count g"
    using wf by (simp_all add: list_wf_def)
  define pos where "pos = p mod int ?n"
  define w where "w = marked pos (te_identities g) (genome g)"
  have pos: "0 \<le> pos" "pos < int ?n" using ne by (simp_all add: pos_def)
  have lw: "length w = ?n" unfolding w_def by (rule length_marked) (use b in simp)
  have g': "g' = \<lparr>genome = slice_upto w pos @ times_list len CHR ''A'' @ slice_from w pos,
            te_identities = dict_set (te_count g + 1) (pos, pos + len) (shifted pos len (te_identities g)),
            te_count = te_count g + 1\<rparr>" and i: "i = te_count g + 1"
    using r unfolding list_insert_te_eq[OF d p ne] by (auto simp: Let_def pos_def w_def)
  have lg: "length (genome g') = ?n + nat len"
    using pos lw by (simp add: g' slice_upto_def slice_from_def slice_index_def times_list_def min_def)
  have "distinct (map fst (te_identities g'))"
    unfolding g' by (simp add: distinct_dict_set distinct_shifted d)
  moreover have "in_bounds (length (genome g')) item \<and> fst item \<le> te_count g'"
    if "item \<in> set (te_identities g')" for item
  proof -
    from that have "item = (te_count g + 1, pos, pos + len) \<or> item \<in> set (shifted pos len (te_identities g))"
      using set_dict_set[of "te_count g + 1" "(pos, pos + len)" "shifted pos len (te_identities g)"]
      by (auto simp: g')
    then show ?thesis
    proof
      assume "item = (te_count g + 1, pos, pos + len)"
      then show ?thesis using pos l lg by (simp add: in_bounds_def g')
    next
      assume "item \<in> set (shifted pos len (te_identities g))"
      then obtain orig where o: "orig \<in> set (te_identities g)" "\<not> collides pos orig"
        "item = shift_item pos len orig"
        using set_shifted by blast
      have "in_bounds (?n + nat len) (shift_item pos len orig)"
        by (rule in_bounds_shift) (use o b pos l in auto)
      moreover have "fst item \<le> te_count g" using o ids by (simp add: fst_shift_item)
      ultimately show ?thesis using o lg by (simp add: g')
    qed
  qed
  ultimately have "list_wf g'" by (simp add: list_wf_def)
  moreover have "list_len g' = list_len g + len" using lg l by (simp add: list_len_def)
  ultimately show ?thesis using i by simp
qed

lemma list_disable_te_wf:
  assumes wf: "list_wf g" and r: "list_disable_te te g = Inr g'"
  shows "list_wf g' \<and> list_len g' = list_len g"
proof -
  obtain s e where look: "map_of (te_identities g) te = Some (s, e)"
    using r by (auto simp: list_disable_te_def dict_get_def split: option.splits)
  then have g': "g' = g\<lparr>te_identities := AList.delete te (te_identities g),
                        genome := mark (genome g) (te, s, e)\<rparr>"
    using r by (simp add: list_disable_te_def dict_get_def dict_pop_def mark_def)
  have mem: "(te, s, e) \<in> set (te_identities g)" using look by (rule map_of_SomeD)
  then have b: "in_bounds (length (genome g)) (te, s, e)" using wf by (auto simp: list_wf_def)
  have lg: "length (genome g') = length (genome g)" unfolding g' using length_mark[OF b] by simp
  have sub: "set (AList.delete te (te_identities g)) \<subseteq> set (te_identities g)"
    by (auto simp: AList.delete_eq)
  have "list_wf g'"
    using wf sub lg unfolding list_wf_def g' by (auto simp: distinct_delete)
  then show ?thesis using lg by (simp add: list_len_def)
qed

lemma list_copy_te_wf:
  assumes wf: "list_wf g" and r: "list_copy_te te offset g = Inr (res, g')"
  shows "list_wf g' \<and> list_len g \<le> list_len g' \<and>
         (res = None \<longrightarrow> g' = g) \<and>
         (\<forall>s e. map_of (te_identities g) te = Some (s, e) \<longrightarrow> list_len g' = list_len g + (e - s))"
proof (cases "map_of (te_identities g) te")
  case None
  then show ?thesis using r wf by (simp add: list_copy_te_def)
next
  case (Some se)
  obtain s e where se: "se = (s, e)" by (cases se) auto
  obtain i where ins: "list_insert_te (s + offset) (e - s) g = Inr (i, g')" and res: "res = Some i"
    using r Some se by (auto simp: list_copy_te_def Let_def split: sum.splits)
  have "(te, s, e) \<in> set (te_identities g)" using Some se by (simp add: map_of_SomeD)
  then have "0 \<le> e - s" using wf by (auto simp: list_wf_def in_bounds_def)
  from list_insert_te_wf[OF wf this ins] show ?thesis using Some se res \<open>0 \<le> e - s\<close> by simp
qed

lemma list_init_wf: "list_wf (list_init n)"
  by (simp add: list_wf_def list_init_def)

lemma list_apply_wf:
  assumes "list_wf g" "nonneg_len c"
  shows "list_wf (list_apply c g) \<and> list_len g \<le> list_len (list_apply c g)"
proof (cases c)
  case (Insert_te p len)
  then show ?thesis using assms list_insert_te_wf[of g len p]
    by (auto simp: nonneg_len_def split: sum.splits)
next
  case (Copy_te te offset)
  then show ?thesis using assms list_copy_te_wf[of g te offset]
    by (auto split: sum.splits)
next
  case (Disable_te te)
  then show ?thesis using assms list_disable_te_wf[of g te]
    by (auto split: sum.splits)
qed

lemma list_run_snoc: "list_run n (ops @ [c]) = list_apply c (list_run n ops)"
  by (simp add: list_run_def)

lemma linked_run_snoc: "linked_run n (ops @ [c]) = linked_apply c (linked_run n ops)"
  by (simp add: linked_run_def)

lemma list_run_wf: "list_all nonneg_len ops \<Longrightarrow> list_wf (list_run n ops)"
proof (induction ops rule: rev_induct)
  case Nil
  show ?case by (simp add: list_run_def list_init_wf)
next
  case (snoc c ops)
  then show ?case using list_apply_wf[of "list_run n ops" c] by (simp add: list_run_snoc)
qed

lemma map_Some_the: "None \<notin> set xs \<Longrightarrow> map Some (map the xs) = xs"
  by (induction xs) auto

lemma ll_shape_represents:
  assumes "ll_shape K"
  shows "\<exists>cs L. represents K cs L"
proof -
  obtain cs where r: "ring (heap K) (head K) cs" and g: "glength K = int (length cs)"
    and v: "None \<notin> set (vals (heap K) cs)"
    using assms by (auto simp: ll_shape_def)
  have "map Some (map the (vals (heap K) cs)) = vals (heap K) cs"
    by (rule map_Some_the[OF v])
  then have "represents K cs \<lparr>genome = map the (vals (heap K) cs),
      te_identities = ll_te_identities K, te_count = ll_te_count K\<rparr>"
    using r g by (simp add: represents_def)
  then show ?thesis by blast
qed

lemma represents_ll_shape: "represents K cs L \<Longrightarrow> ll_shape K"
  by (auto simp: represents_def ll_shape_def)

lemma ll_shape_str:
  assumes "ll_shape K"
  shows "\<exists>s. linked_str K = Inr s \<and> linked_len K = int (length s)"
proof -
  obtain cs L where rep: "represents K cs L" using ll_shape_represents[OF assms] by blast
  show ?thesis
    using linked_str_represents[OF rep] linked_obs_represents(1)[OF rep]
    by (simp add: list_str_def list_len_def)
qed

lemma ordered_range_shift: "ordered_range orig \<Longrightarrow> ordered_range (shift_item p len orig)"
  by (cases orig) (auto simp: ordered_range_def shift_item_def)

lemma linked_insert_te_wf:
  assumes wf: "linked_wf K" and l: "0 \<le> len" and r: "linked_insert_te p len K = Inr (i, K')"
  shows "linked_wf K' \<and> linked_len K' = linked_len K + len \<and> i = ll_te_count K + 1"
proof -
  have p: "p \<le> glength K" using r by (auto simp: linked_insert_te_def split: if_splits)
  have d: "distinct (map fst (ll_te_identities K))" using wf by (simp add: linked_wf_def)
  have o: "\<forall>item \<in> set (ll_te_identities K). ordered_range item" using wf by (simp add: linked_wf_def)
  obtain cs where rg: "ring (heap K) (head K) cs" and g: "glength K = int (length cs)"
    and v: "None \<notin> set (vals (heap K) cs)"
    using wf by (auto simp: linked_wf_def ll_shape_def)
  from linked_insert_te_general[OF d p, of len] obtain h1 h' where
    res: "linked_insert_te p len K =
           Inr (ll_te_count K + 1,
                K\<lparr>ll_te_identities := dict_set (ll_te_count K + 1) (p, p + len)
                                         (shifted p len (ll_te_identities K)),
                  ll_te_count := ll_te_count K + 1, heap := h', glength := glength K + len\<rparr>)"
    and s1: "same_links (heap K) h1"
    and h': "h' = fst ((splice_step ^^ nat len) (h1, walk h1 (p - 1) (nxt (cell h1 (head K)))))"
    by blast
  have K': "K' = K\<lparr>ll_te_identities := dict_set (ll_te_count K + 1) (p, p + len)
                                         (shifted p len (ll_te_identities K)),
                  ll_te_count := ll_te_count K + 1, heap := h', glength := glength K + len\<rparr>"
    and i: "i = ll_te_count K + 1"
    using r res by auto
  define k where "k = linked_index p (length cs)"
  have r1: "ring h1 (head K) cs" by (rule same_links_ring[OF s1 rg])
  have v1: "None \<notin> set (vals h1 cs)" by (rule same_links_vals[OF s1 v])
  have cur: "walk h1 (p - 1) (nxt (cell h1 (head K))) = last (head K # take k cs)"
    unfolding k_def by (rule linked_cursor[OF r1]) (use p g in simp)
  have r1': "ring h1 (head K) (take k cs @ drop k cs)" using r1 by simp
  from splice_stretch[OF r1', of "nat len"] obtain h2 c where
    run: "(splice_step ^^ nat len) (h1, last (head K # take k cs)) = (h2, c)"
    and r2: "ring h2 (head K) (take k cs @ [top h1..<top h1 + nat len] @ drop k cs)"
    and vold: "vals h2 (take k cs @ drop k cs) = vals h1 (take k cs @ drop k cs)"
    and vnew: "vals h2 [top h1..<top h1 + nat len] = replicate (nat len) (Some CHR ''A'')"
    by blast
  have h2: "h' = h2" using h' cur run by simp
  define cs' where "cs' = take k cs @ [top h1..<top h1 + nat len] @ drop k cs"
  have a: "vals h2 (take k cs) @ vals h2 (drop k cs) = vals h1 cs"
    using vold by (simp add: vals_append[symmetric])
  have "set (vals h2 cs') =
      set (vals h2 (take k cs) @ vals h2 (drop k cs)) \<union> set (vals h2 [top h1..<top h1 + nat len])"
    unfolding cs'_def vals_append by auto
  then have v2: "None \<notin> set (vals h2 cs')"
    unfolding a vnew using v1 by auto
  have kle: "k \<le> length cs" unfolding k_def by (rule linked_index_le) (use p g in simp)
  have len': "glength K + len = int (length cs')"
    using l g kle by (simp add: cs'_def)
  have "ll_shape K'"
    unfolding ll_shape_def K' h2 using r2 v2 len' by (auto simp: cs'_def)
  moreover have "distinct (map fst (ll_te_identities K'))"
    unfolding K' by (simp add: distinct_dict_set distinct_shifted d)
  moreover have "ordered_range item" if "item \<in> set (ll_te_identities K')" for item
  proof -
    from that have "item = (ll_te_count K + 1, p, p + len) \<or> item \<in> set (shifted p len (ll_te_identities K))"
      using set_dict_set[of "ll_te_count K + 1" "(p, p + len)" "shifted p len (ll_te_identities K)"]
      by (auto simp: K')
    then show ?thesis
    proof
      assume "item = (ll_te_count K + 1, p, p + len)"
      then show ?thesis using l by (simp add: ordered_range_def)
    next
      assume "item \<in> set (shifted p len (ll_te_identities K))"
      then obtain orig where "orig \<in> set (ll_te_identities K)" "item = shift_item p len orig"
        using set_shifted by blast
      then show ?thesis using o by (simp add: ordered_range_shift)
    qed
  qed
  ultimately have "linked_wf K'" by (simp add: linked_wf_def)
  moreover have "linked_len K' = linked_len K + len" by (simp add: K' linked_len_def)
  ultimately show ?thesis using i by simp
qed

lemma linked_disable_te_wf:
  assumes wf: "linked_wf K" and r: "linked_disable_te te K = Inr K'"
  shows "linked_wf K' \<and> linked_len K' = linked_len K"
proof -
  obtain s e where look: "map_of (ll_te_identities K) te = Some (s, e)"
    using r by (auto simp: linked_disable_te_def dict_get_def split: option.splits)
  from linked_disable_te_general[OF look] obtain h' where
    K': "K' = K\<lparr>ll_te_identities := AList.delete te (ll_te_identities K), heap := h'\<rparr>"
    and sl: "same_links (heap K) h'"
    using r by auto
  obtain cs where rg: "ring (heap K) (head K) cs" and g: "glength K = int (length cs)"
    and v: "None \<notin> set (vals (heap K) cs)"
    using wf by (auto simp: linked_wf_def ll_shape_def)
  have "ll_shape K'"
    unfolding ll_shape_def K' using same_links_ring[OF sl rg] same_links_vals[OF sl v] g by auto
  moreover have sub: "set (AList.delete te (ll_te_identities K)) \<subseteq> set (ll_te_identities K)"
    by (auto simp: AList.delete_eq)
  ultimately have "linked_wf K'"
    using wf unfolding linked_wf_def K' by (auto simp: distinct_delete)
  then show ?thesis by (simp add: K' linked_len_def)
qed

lemma linked_copy_te_wf:
  assumes wf: "linked_wf K" and r: "linked_copy_te te offset K = Inr (res, K')"
  shows "linked_wf K' \<and> linked_len K \<le> linked_len K' \<and>
         (res = None \<longrightarrow> K' = K) \<and>
         (\<forall>s e. map_of (ll_te_identities K) te = Some (s, e) \<longrightarrow> linked_len K' = linked_len K + (e - s))"
proof (cases "map_of (ll_te_identities K) te")
  case None
  then show ?thesis using r wf by (simp add: linked_copy_te_def)
next
  case (Some se)
  obtain s e where se: "se = (s, e)" by (cases se) auto
  obtain i q where ins: "linked_insert_te q (e - s) K = Inr (i, K')" and res: "res = Some i"
    using r Some se by (auto simp: linked_copy_te_def Let_def split: sum.splits)
  have "(te, s, e) \<in> set (ll_te_identities K)" using Some se by (simp add: map_of_SomeD)
  then have "0 \<le> e - s" using wf by (auto simp: linked_wf_def ordered_range_def)
  from linked_insert_te_wf[OF wf this ins] show ?thesis using Some se res \<open>0 \<le> e - s\<close> by simp
qed

lemma linked_init_wf: "0 \<le> n \<Longrightarrow> linked_wf (linked_init n)"
  using represents_ll_shape[OF linked_init_represents, of n]
  by (simp add: linked_wf_def) (simp add: linked_init_def Let_def)

lemma linked_apply_wf:
  assumes "linked_wf K" "nonneg_len c"
  shows "linked_wf (linked_apply c K) \<and> linked_len K \<le> linked_len (linked_apply c K)"
proof (cases c)
  case (Insert_te p len)
  then show ?thesis using assms linked_insert_te_wf[of K len p]
    by (auto simp: nonneg_len_def split: sum.splits)
next
  case (Copy_te te offset)
  then show ?thesis using assms linked_copy_te_wf[of K te offset]
    by (auto split: sum.splits)
next
  case (Disable_te te)
  then show ?thesis using assms linked_disable_te_wf[of K te]
    by (auto split: sum.splits)
qed

lemma linked_run_wf: "0 \<le> n \<Longrightarrow> list_all nonneg_len ops \<Longrightarrow> linked_wf (linked_run n ops)"
proof (induction ops rule: rev_induct)
  case Nil
  then show ?case by (simp add: linked_run_def linked_init_wf)
next
  case (snoc c ops)
  then show ?case using linked_apply_wf[of "linked_run n ops" c] by (simp add: linked_run_snoc)
qed

lemma list_scenario_disable:
  "list_disable_te 1 \<lparr>genome = ''-----AAA-----'', te_identities = [(1, (5, 8))], te_count = 1\<rparr>
      = Inr \<lparr>genome = ''-----xxx-----'', te_identities = [], te_count = 1\<rparr>"
  by (simp add: list_disable_te_def dict_get_def dict_pop_def slice_assign_def slice_index_def
      times_list_def Let_def eval_nat_numeral)

section \<open>Collisions\<close>

lemma nth_mark:
  assumes b: "in_bounds (length w) (te, s, e)" and j: "j < length w"
  shows "mark w (te, s, e) ! j = (if nat s \<le> j \<and> j < nat e then CHR ''x'' else w ! j)"
proof -
  have se: "0 \<le> s" "s \<le> e" "e \<le> int (length w)" using b by (simp_all add: in_bounds_def)
  then have n: "nat s \<le> length w" "nat e \<le> length w" "nat s \<le> nat e" by linarith+
  have l: "nat (e - s) = nat e - nat s" using se by (simp add: nat_diff_distrib)
  show ?thesis
    unfolding mark_in_bounds[OF b] using n j l
    by (auto simp: nth_append min_def)
qed

lemma nth_foldl_mark:
  "\<forall>item \<in> set items. in_bounds (length w) item \<Longrightarrow> j < length w \<Longrightarrow>
   w ! j = CHR ''x'' \<or> (\<exists>(te, s, e) \<in> set items. nat s \<le> j \<and> j < nat e) \<Longrightarrow>
   foldl mark w items ! j = CHR ''x''"
proof (induction items arbitrary: w)
  case Nil
  then show ?case by simp
next
  case (Cons item items)
  obtain te s e where item: "item = (te, s, e)" by (cases item) auto
  have b: "in_bounds (length w) (te, s, e)" using Cons.prems(1) item by simp
  have l: "length (mark w item) = length w" using length_mark[OF b] item by simp
  have n: "mark w item ! j = (if nat s \<le> j \<and> j < nat e then CHR ''x'' else w ! j)"
    using nth_mark[OF b Cons.prems(2)] item by simp
  have "foldl mark (mark w item) items ! j = CHR ''x''"
  proof (rule Cons.IH)
    show "\<forall>it \<in> set items. in_bounds (length (mark w item)) it"
      using Cons.prems(1) l by simp
    show "j < length (mark w item)" using Cons.prems(2) l by simp
    show "mark w item ! j = CHR ''x'' \<or> (\<exists>(te, s, e) \<in> set items. nat s \<le> j \<and> j < nat e)"
      using Cons.prems(3) n item by auto
  qed
  then show ?case by simp
qed

lemma nth_marked:
  assumes b: "\<forall>item \<in> set d. collides pos item \<longrightarrow> in_bounds (length w) item"
    and m: "(te, s, e) \<in> set d" and c: "s \<le> pos" "pos < e"
    and i: "s \<le> i" "i < e"
  shows "marked pos d w ! nat i = CHR ''x''"
  unfolding marked_def
proof (rule nth_foldl_mark)
  show "\<forall>item \<in> set (filter (collides pos) d). in_bounds (length w) item" using b by simp
  have cm: "collides pos (te, s, e)" using c by (simp add: collides_def)
  then have "in_bounds (length w) (te, s, e)" using b m by blast
  then have se: "0 \<le> s" "e \<le> int (length w)" by (simp_all add: in_bounds_def)
  then show "nat i < length w" using i by linarith
  have "nat s \<le> nat i \<and> nat i < nat e" using i se by linarith
  then show "w ! nat i = CHR ''x'' \<or> (\<exists>(te, s, e) \<in> set (filter (collides pos) d). nat s \<le> nat i \<and> nat i < nat e)"
    using m cm by auto
qed

text \<open>
  The cells after a collision: the colliding TE's cells \<open>[s, e)\<close> are \<open>x\<close> in \<open>w\<close>, and
  \<open>len\<close> cells \<open>A\<close> are spliced in at \<open>pos\<close>.
\<close>

lemma nth_splice:
  assumes "k \<le> length w"
  shows "(take k w @ replicate m a @ drop k w) ! j =
           (if j < k then w ! j else if j < k + m then a else w ! (j - m))"
proof -
  have lt: "length (take k w) = k" using assms by simp
  show ?thesis
  proof (cases "j < k")
    case True
    then show ?thesis using lt by (simp add: nth_append)
  next
    case False
    show ?thesis
    proof (cases "j < k + m")
      case True
      then have "j - k < m" using False by linarith
      then show ?thesis using False True lt by (simp add: nth_append)
    next
      case F2: False
      then have a: "\<not> j - k < m" and b: "k + (j - k - m) = j - m" using False by linarith+
      have "(take k w @ replicate m a @ drop k w) ! j = drop k w ! (j - k - m)"
        using False a lt by (simp add: nth_append)
      also have "\<dots> = w ! (j - m)" using assms b by simp
      finally show ?thesis using False F2 by simp
    qed
  qed
qed

lemma nth_spliced:
  assumes x: "\<forall>i. s \<le> i \<and> i < e \<longrightarrow> w ! nat i = CHR ''x''"
    and b: "0 \<le> s" "s \<le> pos" "pos < e" "e \<le> int (length w)" and l: "0 \<le> len"
  defines "r \<equiv> take (nat pos) w @ replicate (nat len) CHR ''A'' @ drop (nat pos) w"
  shows "(\<forall>i. s \<le> i \<and> i < pos \<longrightarrow> r ! nat i = CHR ''x'') \<and>
         (\<forall>i. pos \<le> i \<and> i < pos + len \<longrightarrow> r ! nat i = CHR ''A'') \<and>
         (\<forall>i. pos + len \<le> i \<and> i < e + len \<longrightarrow> r ! nat i = CHR ''x'')"
proof (intro conjI allI impI)
  have k: "nat pos \<le> length w" using b by linarith
  note n = nth_splice[OF k, of "nat len" "CHR ''A''", folded r_def]
  fix i
  define j where "j = nat i"
  {
    assume i: "s \<le> i \<and> i < pos"
    then have "j < nat pos" unfolding j_def using b by linarith
    then have "r ! j = w ! j" by (simp add: n)
    then show "r ! nat i = CHR ''x''" using x i b by (simp add: j_def)
  }
  {
    assume i: "pos \<le> i \<and> i < pos + len"
    then have "\<not> j < nat pos" "j < nat pos + nat len" unfolding j_def using b by linarith+
    then have "r ! j = CHR ''A''" by (simp add: n)
    then show "r ! nat i = CHR ''A''" by (simp add: j_def)
  }
  {
    assume i: "pos + len \<le> i \<and> i < e + len"
    then have a: "\<not> j < nat pos" "\<not> j < nat pos + nat len" "j - nat len = nat (i - len)"
      unfolding j_def using b l by linarith+
    then have "r ! j = w ! nat (i - len)" by (simp add: n)
    also have "\<dots> = CHR ''x''" using x i b by simp
    finally show "r ! nat i = CHR ''x''" by (simp add: j_def)
  }
qed

lemma collision_result:
  assumes wf: "list_wf L" and t: "map_of (te_identities L) te = Some (s, e)"
    and c: "s \<le> pos" "pos < e" and l: "0 \<le> len"
  defines "w \<equiv> marked pos (te_identities L) (genome L)"
  defines "R \<equiv> \<lparr>genome = take (nat pos) w @ replicate (nat len) CHR ''A'' @ drop (nat pos) w,
        te_identities = dict_set (te_count L + 1) (pos, pos + len) (shifted pos len (te_identities L)),
        te_count = te_count L + 1\<rparr>"
  shows "after_collision te s e pos len (te_count L + 1) (list_active_tes R) (te_identities R) (list_str R)
         \<and> list_len R = list_len L + len"
proof -
  have d: "distinct (map fst (te_identities L))" using wf by (simp add: list_wf_def)
  have m: "(te, s, e) \<in> set (te_identities L)" using t by (rule map_of_SomeD)
  have b: "\<forall>item \<in> set (te_identities L). in_bounds (length (genome L)) item"
    and ids: "\<forall>item \<in> set (te_identities L). fst item \<le> te_count L"
    using wf by (simp_all add: list_wf_def)
  have se: "0 \<le> s" "e \<le> int (length (genome L))" using b m by (auto simp: in_bounds_def)
  have lw: "length w = length (genome L)" unfolding w_def by (rule length_marked) (use b in simp)
  have fresh: "te \<noteq> te_count L + 1" using ids m by force
  have "map_of (te_identities R) te = None"
    unfolding R_def using c by (simp add: map_of_dict_set_other[OF fresh] map_of_shifted[OF d t])
  then have 1: "te \<notin> set (list_active_tes R)"
    by (simp add: list_active_tes_def map_of_eq_None_iff)
  have 2: "map_of (te_identities R) (te_count L + 1) = Some (pos, pos + len)"
    unfolding R_def by (simp add: map_of_dict_set_same)
  then have 3: "te_count L + 1 \<in> set (list_active_tes R)"
    unfolding list_active_tes_def by (metis map_of_eq_None_iff option.distinct(1) set_map)
  have x: "\<forall>i. s \<le> i \<and> i < e \<longrightarrow> w ! nat i = CHR ''x''"
    unfolding w_def using nth_marked[OF _ m c] b by blast
  have 4: "(\<forall>i. s \<le> i \<and> i < pos \<longrightarrow> list_str R ! nat i = CHR ''x'') \<and>
         (\<forall>i. pos \<le> i \<and> i < pos + len \<longrightarrow> list_str R ! nat i = CHR ''A'') \<and>
         (\<forall>i. pos + len \<le> i \<and> i < e + len \<longrightarrow> list_str R ! nat i = CHR ''x'')"
    unfolding R_def list_str_def using nth_spliced[OF x se(1) c _ l] se(2) lw by simp
  have 5: "list_len R = list_len L + len"
    unfolding R_def list_len_def using lw c se l by simp
  show ?thesis unfolding after_collision_def using 1 2 3 4 5 by blast
qed

lemma list_collision:
  assumes wf: "list_wf g" and t: "map_of (te_identities g) te = Some (s, e)"
    and p: "p \<le> list_len g" and c: "s \<le> p mod list_len g" "p mod list_len g < e" and l: "0 \<le> len"
  shows "\<exists>g'. list_insert_te p len g = Inr (te_count g + 1, g') \<and>
           after_collision te s e (p mod list_len g) len (te_count g + 1)
             (list_active_tes g') (te_identities g') (list_str g') \<and>
           list_len g' = list_len g + len"
proof -
  let ?n = "length (genome g)"
  define pos where "pos = p mod int ?n"
  have d: "distinct (map fst (te_identities g))" using wf by (simp add: list_wf_def)
  have m: "(te, s, e) \<in> set (te_identities g)" using t by (rule map_of_SomeD)
  then have se: "0 \<le> s" "e \<le> int ?n" using wf by (auto simp: list_wf_def in_bounds_def)
  have ne: "genome g \<noteq> []" using se c by (auto simp: list_len_def)
  have p': "p \<le> int ?n" using p by (simp add: list_len_def)
  have pos: "0 \<le> pos" "pos < int ?n" using ne by (simp_all add: pos_def)
  have b: "\<forall>item \<in> set (te_identities g). collides pos item \<longrightarrow> in_bounds ?n item"
    using wf by (simp add: list_wf_def)
  have lw: "length (marked pos (te_identities g) (genome g)) = ?n" by (rule length_marked[OF b])
  have sl: "slice_upto (marked pos (te_identities g) (genome g)) pos = take (nat pos) (marked pos (te_identities g) (genome g))"
    "slice_from (marked pos (te_identities g) (genome g)) pos = drop (nat pos) (marked pos (te_identities g) (genome g))"
  proof -
    have "nat pos \<le> length (marked pos (te_identities g) (genome g))" using pos lw by linarith
    then show "slice_upto (marked pos (te_identities g) (genome g)) pos = take (nat pos) (marked pos (te_identities g) (genome g))"
      "slice_from (marked pos (te_identities g) (genome g)) pos = drop (nat pos) (marked pos (te_identities g) (genome g))"
      using pos by (simp_all add: slice_upto_def slice_from_def slice_index_def min_def)
  qed
  have c': "s \<le> pos" "pos < e" using c by (simp_all add: pos_def list_len_def)
  show ?thesis
    unfolding list_insert_te_eq[OF d p' ne] Let_def list_len_def pos_def[symmetric] sl times_list_def
    using collision_result[OF wf t c' l] by (simp add: list_len_def)
qed

lemma linked_collision:
  assumes rep: "represents K cs L" and wf: "list_wf L"
    and t: "map_of (ll_te_identities K) te = Some (s, e)"
    and c: "s \<le> p" "p < e" and p1: "1 \<le> p" and l: "0 \<le> len"
  shows "\<exists>K' r. linked_insert_te p len K = Inr (ll_te_count K + 1, K') \<and> linked_str K' = Inr r \<and>
           after_collision te s e p len (ll_te_count K + 1)
             (linked_active_tes K') (ll_te_identities K') r \<and>
           linked_len K' = linked_len K + len"
proof -
  have reg: "ll_te_identities K = te_identities L" and cnt: "ll_te_count K = te_count L"
    using rep by (simp_all add: represents_def)
  have t': "map_of (te_identities L) te = Some (s, e)" using t reg by simp
  have d: "distinct (map fst (te_identities L))" using wf by (simp add: list_wf_def)
  have m: "(te, s, e) \<in> set (te_identities L)" using t' by (rule map_of_SomeD)
  then have se: "0 \<le> s" "e \<le> int (length (genome L))" using wf by (auto simp: list_wf_def in_bounds_def)
  have b: "\<forall>item \<in> set (te_identities L). collides p item \<longrightarrow> in_bounds (length (genome L)) item"
    using wf by (simp add: list_wf_def)
  have pl: "p \<le> list_len L" using c se by (simp add: list_len_def)
  from linked_insert_te_eval[OF rep d b pl l] obtain K' cs' where
    ins: "linked_insert_te p len K = Inr (te_count L + 1, K')"
    and rep': "represents K' cs' (linked_insert_te_abs p len L)"
    by blast
  have k: "linked_index p (length (genome L)) = nat p" using p1 by (simp add: linked_index_def)
  have abs: "linked_insert_te_abs p len L =
     \<lparr>genome = take (nat p) (marked p (te_identities L) (genome L)) @ replicate (nat len) CHR ''A''
                @ drop (nat p) (marked p (te_identities L) (genome L)),
      te_identities = dict_set (te_count L + 1) (p, p + len) (shifted p len (te_identities L)),
      te_count = te_count L + 1\<rparr>"
    by (simp add: linked_insert_te_abs_def Let_def k)
  have reg': "ll_te_identities K' = te_identities (linked_insert_te_abs p len L)"
    using rep' by (simp add: represents_def)
  have "linked_len K = list_len L" by (rule linked_obs_represents(1)[OF rep])
  then show ?thesis
    using collision_result[OF wf t' c l] ins
      linked_str_represents[OF rep'] linked_obs_represents[OF rep'] reg'
    unfolding abs[symmetric] cnt by simp
qed

lemma list_scenario_2_4:
  "list_insert_te 2 4 (list_init 10) =
     Inr (1, \<lparr>genome = ''--AAAA--------'', te_identities = [(1, (2, 6))], te_count = 1\<rparr>)"
  by (simp add: list_insert_te_def eval_defs eval_nat_numeral)

lemma list_scenario_3_2:
  "list_insert_te 3 2 \<lparr>genome = ''--AAAA--------'', te_identities = [(1, (2, 6))], te_count = 1\<rparr> =
     Inr (2, \<lparr>genome = ''--xAAxxx--------'', te_identities = [(2, (3, 5))], te_count = 2\<rparr>)"
  by (simp add: list_insert_te_def list_insert_step_def dict_pop_def eval_defs eval_nat_numeral)

lemma linked_scenario_2_4:
  "\<exists>K cs. linked_insert_te 2 4 (linked_init 10) = Inr (1, K) \<and>
     represents K cs \<lparr>genome = ''--AAAA--------'', te_identities = [(1, (2, 6))], te_count = 1\<rparr>"
  using linked_first_insert[of 10 2 4] by (simp add: eval_defs eval_nat_numeral)

lemma linked_scenario_3_2:
  assumes "represents K cs \<lparr>genome = ''--AAAA--------'', te_identities = [(1, (2, 6))], te_count = 1\<rparr>"
  shows "\<exists>K' cs'. linked_insert_te 3 2 K = Inr (2, K') \<and>
     represents K' cs' \<lparr>genome = ''--xAAxxx--------'', te_identities = [(2, (3, 5))], te_count = 2\<rparr>"
proof -
  have "\<exists>K' cs'. linked_insert_te 3 2 K =
      Inr (te_count \<lparr>genome = ''--AAAA--------'', te_identities = [(1, (2, 6))], te_count = 1\<rparr> + 1, K') \<and>
      represents K' cs' (linked_insert_te_abs 3 2
        \<lparr>genome = ''--AAAA--------'', te_identities = [(1, (2, 6))], te_count = 1\<rparr>)"
    by (rule linked_insert_te_eval[OF assms]) (simp_all add: eval_defs)
  then show ?thesis by (simp add: eval_defs eval_nat_numeral)
qed

section \<open>Where the two classes agree\<close>

lemma insert_te_agree:
  assumes rep: "represents K cs L" and wf: "list_wf L" and l: "0 \<le> len"
    and q: "1 \<le> q" "q < list_len L" and p: "p \<le> list_len L" "p mod list_len L = q"
  shows "\<exists>L' K' cs'. list_insert_te p len L = Inr (te_count L + 1, L') \<and>
           linked_insert_te q len K = Inr (te_count L + 1, K') \<and>
           represents K' cs' L' \<and> list_wf L'"
proof -
  let ?n = "length (genome L)"
  have d: "distinct (map fst (te_identities L))" using wf by (simp add: list_wf_def)
  have b: "\<forall>item \<in> set (te_identities L). collides q item \<longrightarrow> in_bounds ?n item"
    using wf by (simp add: list_wf_def)
  have ne: "genome L \<noteq> []" and p': "p \<le> int ?n" and m: "p mod int ?n = q"
    using q p by (auto simp: list_len_def)
  have lw: "length (marked q (te_identities L) (genome L)) = ?n" by (rule length_marked[OF b])
  have nq: "nat q \<le> ?n" using q by (simp add: list_len_def)
  have sl: "slice_upto (marked q (te_identities L) (genome L)) q = take (nat q) (marked q (te_identities L) (genome L))"
    "slice_from (marked q (te_identities L) (genome L)) q = drop (nat q) (marked q (te_identities L) (genome L))"
    using q nq lw by (simp_all add: slice_upto_def slice_from_def slice_index_def min_def)
  have k: "linked_index q ?n = nat q" using q by (simp add: linked_index_def)
  have li: "list_insert_te p len L = Inr (te_count L + 1, linked_insert_te_abs q len L)"
    unfolding list_insert_te_eq[OF d p' ne] m Let_def sl
    by (simp add: linked_insert_te_abs_def Let_def k times_list_def)
  have ql: "q \<le> list_len L" using q by simp
  from linked_insert_te_eval[OF rep d b ql l] obtain K' cs' where
    ki: "linked_insert_te q len K = Inr (te_count L + 1, K')"
    and rep': "represents K' cs' (linked_insert_te_abs q len L)"
    by blast
  have "list_wf (linked_insert_te_abs q len L)"
    using list_insert_te_wf[OF wf l li] by simp
  then show ?thesis using li ki rep' by blast
qed

lemma disable_te_agree:
  assumes rep: "represents K cs L" and wf: "list_wf L"
  shows "(\<exists>e. list_disable_te te L = Inl e \<and> linked_disable_te te K = Inl e) \<or>
         (\<exists>L' K'. list_disable_te te L = Inr L' \<and> linked_disable_te te K = Inr K' \<and>
                  represents K' cs L' \<and> list_wf L')"
proof (cases "map_of (te_identities L) te")
  case None
  then have "map_of (ll_te_identities K) te = None" using rep by (simp add: represents_def)
  then show ?thesis using None list_disable_te_unknown linked_disable_te_unknown by blast
next
  case (Some se)
  obtain s e where se: "se = (s, e)" by (cases se) auto
  have mem: "(te, s, e) \<in> set (te_identities L)" using Some se by (simp add: map_of_SomeD)
  then obtain dn items where dec: "te_identities L = dn @ (te, s, e) # items"
    by (meson split_list)
  have d: "distinct (map fst (dn @ (te, s, e) # items))" using wf dec by (simp add: list_wf_def)
  have b: "in_bounds (length cs) (te, s, e)"
    using wf mem represents_length[OF rep] by (auto simp: list_wf_def)
  from linked_disable_te_represents[OF rep d dec b] obtain K' where
    kd: "linked_disable_te te K = Inr K'"
    and rep': "represents K' cs (L\<lparr>genome := mark (genome L) (te, s, e), te_identities := dn @ items\<rparr>)"
    by blast
  have pop: "dict_pop te (te_identities L) = Inr ((s, e), dn @ items)"
    unfolding dec by (rule dict_pop_middle[OF d])
  have ld: "list_disable_te te L =
      Inr (L\<lparr>genome := mark (genome L) (te, s, e), te_identities := dn @ items\<rparr>)"
    using Some se pop by (simp add: list_disable_te_def dict_get_def mark_def)
  have "list_wf (L\<lparr>genome := mark (genome L) (te, s, e), te_identities := dn @ items\<rparr>)"
    using list_disable_te_wf[OF wf ld] by simp
  then show ?thesis using ld kd rep' by blast
qed

lemma apply_agree:
  assumes rep: "represents K cs L" and wf: "list_wf L" and a: "agree L c"
  shows "\<exists>cs'. represents (linked_apply c K) cs' (list_apply c L) \<and> list_wf (list_apply c L)"
proof (cases c)
  case (Insert_te p len)
  have gl: "glength K = list_len L"
    using rep represents_length[OF rep] by (simp add: represents_def list_len_def)
  from a Insert_te have l: "0 \<le> len" and alt: "list_len L < p \<or> (1 \<le> p \<and> p < list_len L)"
    by (simp_all add: agree_def)
  from alt show ?thesis
  proof
    assume "list_len L < p"
    then have "list_insert_te p len L = Inl ValueError" "linked_insert_te p len K = Inl ValueError"
      using gl by (simp_all add: list_insert_te_def linked_insert_te_def list_len_def)
    then show ?thesis using Insert_te rep wf by auto
  next
    assume q: "1 \<le> p \<and> p < list_len L"
    then have "p mod list_len L = p" by simp
    from insert_te_agree[OF rep wf l _ _ _ this] q show ?thesis using Insert_te by auto
  qed
next
  case (Disable_te te)
  from disable_te_agree[OF rep wf, of te] show ?thesis using Disable_te rep wf by auto
next
  case (Copy_te te offset)
  have gl: "glength K = list_len L"
    using rep represents_length[OF rep] by (simp add: represents_def list_len_def)
  have reg: "ll_te_identities K = te_identities L" using rep by (simp add: represents_def)
  show ?thesis
  proof (cases "map_of (te_identities L) te")
    case None
    then show ?thesis using Copy_te rep wf reg by (auto simp: list_copy_te_def linked_copy_te_def)
  next
    case (Some se)
    obtain s e where se: "se = (s, e)" by (cases se) auto
    have mem: "(te, s, e) \<in> set (te_identities L)" using Some se by (simp add: map_of_SomeD)
    then have b: "0 \<le> s" "s \<le> e" "e \<le> list_len L"
      using wf by (auto simp: list_wf_def in_bounds_def list_len_def)
    then have l: "0 \<le> e - s" by simp
    define t where "t = s + offset"
    define q where "q = (if offset > 0 then s + offset
                         else if s + offset < 0 then glength K + s + offset else s + offset)"
    have lc: "list_copy_te te offset L =
        (case list_insert_te t (e - s) L of Inl err \<Rightarrow> Inl err | Inr (i, g') \<Rightarrow> Inr (Some i, g'))"
      using Some se by (simp add: list_copy_te_def Let_def t_def)
    have kc: "linked_copy_te te offset K =
        (case linked_insert_te q (e - s) K of Inl err \<Rightarrow> Inl err | Inr (i, g') \<Rightarrow> Inr (Some i, g'))"
      using Some se reg by (simp add: linked_copy_te_def Let_def q_def)
    from a Copy_te Some se have alt: "list_len L < t \<or> (1 \<le> t \<and> t < list_len L) \<or>
        (- list_len L < t \<and> t < 0)"
      by (simp add: agree_def t_def)
    then consider (past) "list_len L < t" | (inside) "1 \<le> t \<and> t < list_len L"
      | (before) "- list_len L < t \<and> t < 0" by blast
    then show ?thesis
    proof cases
      case past
      then have "offset > 0" using b by (simp add: t_def)
      then have "q = t" by (simp add: q_def t_def)
      then have "list_insert_te t (e - s) L = Inl ValueError" "linked_insert_te q (e - s) K = Inl ValueError"
        using past gl by (simp_all add: list_insert_te_def linked_insert_te_def list_len_def)
      then show ?thesis using Copy_te rep wf lc kc by auto
    next
      case inside
      then have qt: "q = t" by (auto simp: q_def t_def)
      have "t mod list_len L = t" using inside by simp
      from insert_te_agree[OF rep wf l _ _ _ this] inside
      show ?thesis using Copy_te lc kc qt by auto
    next
      case before
      then have "\<not> offset > 0" using b by (simp add: t_def)
      then have qt: "q = list_len L + t" using before gl by (simp add: q_def t_def)
      have "t mod list_len L = (t + list_len L) mod list_len L" by simp
      also have "\<dots> = t + list_len L"
        by (rule mod_pos_pos_trivial) (use before in simp_all)
      finally have m: "t mod list_len L = list_len L + t" by simp
      have "1 \<le> list_len L + t" "list_len L + t < list_len L" "t \<le> list_len L"
        using before by simp_all
      from insert_te_agree[OF rep wf l this m]
      show ?thesis using Copy_te lc kc qt by auto
    qed
  qed
qed

lemma script_agree:
  "represents K cs L \<Longrightarrow> list_wf L \<Longrightarrow> agree_script L ops \<Longrightarrow>
   \<exists>cs'. represents (foldl (\<lambda>g c. linked_apply c g) K ops) cs' (foldl (\<lambda>g c. list_apply c g) L ops)"
proof (induction ops arbitrary: K cs L)
  case Nil
  then show ?case by auto
next
  case (Cons c ops)
  from apply_agree[OF Cons.prems(1,2)] Cons.prems(3) obtain cs1 where
    "represents (linked_apply c K) cs1 (list_apply c L)" "list_wf (list_apply c L)"
    by auto
  from Cons.IH[OF this] Cons.prems(3) show ?case by simp
qed

lemma variants_agree:
  assumes "0 \<le> n" and "agree_script (list_init n) ops"
  shows "linked_str (linked_run n ops) = Inr (list_str (list_run n ops)) \<and>
         linked_active_tes (linked_run n ops) = list_active_tes (list_run n ops) \<and>
         linked_len (linked_run n ops) = list_len (list_run n ops)"
proof -
  from script_agree[OF linked_init_represents[OF assms(1)] list_init_wf assms(2)]
  obtain cs where rep: "represents (linked_run n ops) cs (list_run n ops)"
    by (auto simp: linked_run_def list_run_def)
  show ?thesis
    using linked_str_represents[OF rep] linked_obs_represents[OF rep] by simp
qed

lemma linked_scenario_disable:
  assumes "represents K cs \<lparr>genome = ''-----AAA-----'', te_identities = [(1, (5, 8))], te_count = 1\<rparr>"
  shows "\<exists>K'. linked_disable_te 1 K = Inr K' \<and>
     represents K' cs \<lparr>genome = ''-----xxx-----'', te_identities = [], te_count = 1\<rparr>"
proof -
  have "length cs = 13" using represents_length[OF assms] by simp
  then have "\<exists>K'. linked_disable_te 1 K = Inr K' \<and>
      represents K' cs (\<lparr>genome = ''-----AAA-----'', te_identities = [(1, (5, 8))], te_count = 1\<rparr>
        \<lparr>genome := mark (genome \<lparr>genome = ''-----AAA-----'', te_identities = [(1, (5, 8))], te_count = 1\<rparr>) (1, 5, 8),
         te_identities := [] @ []\<rparr>)"
    by (intro linked_disable_te_represents[OF assms]) (simp_all add: in_bounds_def)
  then show ?thesis by (simp add: eval_defs eval_nat_numeral)
qed

section \<open>Active cells and the registry\<close>

lemma nth_foldl_mark_iff:
  "\<forall>item \<in> set items. in_bounds (length w) item \<Longrightarrow> j < length w \<Longrightarrow>
   foldl mark w items ! j = (if \<exists>item \<in> set items. covers item j then CHR ''x'' else w ! j)"
proof (induction items arbitrary: w)
  case Nil
  then show ?case by simp
next
  case (Cons item items)
  obtain te s e where item: "item = (te, s, e)" by (cases item) auto
  have b: "in_bounds (length w) (te, s, e)" using Cons.prems(1) item by simp
  then have se: "0 \<le> s" "s \<le> e" by (simp_all add: in_bounds_def)
  have l: "length (mark w item) = length w" using length_mark[OF b] item by simp
  have cv: "covers item j = (nat s \<le> j \<and> j < nat e)"
    using se item by (auto simp: covers_def)
  have n: "mark w item ! j = (if covers item j then CHR ''x'' else w ! j)"
    using nth_mark[OF b Cons.prems(2)] item cv by simp
  have ih: "foldl mark (mark w item) items ! j =
      (if \<exists>it \<in> set items. covers it j then CHR ''x'' else mark w item ! j)"
    by (rule Cons.IH) (use Cons.prems l in simp_all)
  show ?case using ih n by auto
qed

lemma nth_marked_iff:
  assumes "\<forall>item \<in> set d. collides pos item \<longrightarrow> in_bounds (length w) item" and "j < length w"
  shows "marked pos d w ! j =
           (if \<exists>item \<in> set d. collides pos item \<and> covers item j then CHR ''x'' else w ! j)"
proof -
  have "foldl mark w (filter (collides pos) d) ! j =
      (if \<exists>item \<in> set (filter (collides pos) d). covers item j then CHR ''x'' else w ! j)"
    by (rule nth_foldl_mark_iff) (use assms in simp_all)
  then show ?thesis by (auto simp: marked_def)
qed

lemma set_foldl_mark:
  "\<forall>item \<in> set items. in_bounds (length w) item \<Longrightarrow>
   set (foldl mark w items) \<subseteq> insert CHR ''x'' (set w)"
proof (induction items arbitrary: w)
  case Nil
  then show ?case by auto
next
  case (Cons item items)
  obtain te s e where item: "item = (te, s, e)" by (cases item) auto
  have b: "in_bounds (length w) (te, s, e)" using Cons.prems(1) item by simp
  have l: "length (mark w item) = length w" using length_mark[OF b] item by simp
  have m: "set (mark w item) \<subseteq> insert CHR ''x'' (set w)"
    unfolding item mark_in_bounds[OF b]
    by (auto dest: in_set_takeD in_set_dropD)
  have "set (foldl mark (mark w item) items) \<subseteq> insert CHR ''x'' (set (mark w item))"
    by (rule Cons.IH) (use Cons.prems l in simp)
  then show ?case using m by auto
qed

lemma slice_at:
  assumes "0 \<le> pos" "pos \<le> int (length w)"
  shows "slice_upto w pos = take (nat pos) w" "slice_from w pos = drop (nat pos) w"
proof -
  have "nat pos \<le> length w" using assms by linarith
  then show "slice_upto w pos = take (nat pos) w" "slice_from w pos = drop (nat pos) w"
    using assms(1) by (simp_all add: slice_upto_def slice_from_def slice_index_def min_def)
qed

lemma set_dict_set_fresh:
  "k \<notin> fst ` set d \<Longrightarrow> set (dict_set k v d) = insert (k, v) (set d)"
  by (simp add: dict_set_fresh)

lemma list_insert_te_cells:
  assumes ok: "active_cells_ok g" and l: "0 \<le> len" and r: "list_insert_te p len g = Inr (i, g')"
  shows "active_cells_ok g'"
proof -
  let ?n = "length (genome g)"
  let ?d = "te_identities g"
  have wf: "list_wf g" and dj: "disjoint_ranges ?d"
    and cells: "\<forall>i < ?n. (genome g ! i = CHR ''A'') = (\<exists>item \<in> set ?d. covers item i)"
    and chars: "set (genome g) \<subseteq> {CHR ''-'', CHR ''A'', CHR ''x''}"
    using ok by (simp_all add: active_cells_ok_def)
  have wf': "list_wf g'" using list_insert_te_wf[OF wf l r] by simp
  have p: "p \<le> int ?n" and ne: "genome g \<noteq> []"
    using r by (auto simp: list_insert_te_def split: if_splits)
  have d: "distinct (map fst ?d)" using wf by (simp add: list_wf_def)
  have b: "\<forall>item \<in> set ?d. in_bounds ?n item"
    and ids: "\<forall>item \<in> set ?d. fst item \<le> te_count g"
    using wf by (simp_all add: list_wf_def)
  define pos where "pos = p mod int ?n"
  define w where "w = marked pos ?d (genome g)"
  define k where "k = nat pos"
  define m where "m = nat len"
  define new where "new = (te_count g + 1, pos, pos + len)"
  have pos: "0 \<le> pos" "pos < int ?n" using ne by (simp_all add: pos_def)
  have k: "k \<le> ?n" "int k = pos" using pos by (simp_all add: k_def)
  have m: "int m = len" using l by (simp add: m_def)
  have lw: "length w = ?n" unfolding w_def by (rule length_marked) (use b in simp)
  have wn: "w ! j = (if \<exists>item \<in> set ?d. collides pos item \<and> covers item j then CHR ''x''
                     else genome g ! j)" if "j < ?n" for j
    unfolding w_def by (rule nth_marked_iff) (use b that in simp_all)
  have fresh: "te_count g + 1 \<notin> fst ` set (shifted pos len ?d)"
  proof
    assume "te_count g + 1 \<in> fst ` set (shifted pos len ?d)"
    then obtain item where "item \<in> set (shifted pos len ?d)" "fst item = te_count g + 1" by auto
    then obtain orig where "orig \<in> set ?d" "fst orig = te_count g + 1"
      using set_shifted fst_shift_item by metis
    then show False using ids by force
  qed
  have g': "g' = \<lparr>genome = take k w @ replicate m CHR ''A'' @ drop k w,
            te_identities = dict_set (te_count g + 1) (pos, pos + len) (shifted pos len ?d),
            te_count = te_count g + 1\<rparr>"
  proof -
    have "slice_upto w pos = take k w" "slice_from w pos = drop k w"
      unfolding k_def by (rule slice_at; use pos lw in simp)+
    then show ?thesis
      using r unfolding list_insert_te_eq[OF d p ne]
      by (auto simp: Let_def pos_def w_def times_list_def m_def)
  qed
  have reg: "set (te_identities g') = insert new (set (shifted pos len ?d))"
    unfolding g' new_def using set_dict_set_fresh[OF fresh] by simp
  have sh: "set (shifted pos len ?d) = shift_item pos len ` {item \<in> set ?d. \<not> collides pos item}"
    by (auto simp: shifted_def)
  have lg: "length (genome g') = ?n + m" using k lw by (simp add: g')
  have gn: "genome g' ! j = (if j < k then w ! j else if j < k + m then CHR ''A'' else w ! (j - m))" for j
    unfolding g' using nth_splice[of k w m "CHR ''A''" j] k lw by simp
  have kept: "e \<le> pos \<or> pos < s" if "(t, s, e) \<in> set ?d" "\<not> collides pos (t, s, e)" for t s e
    using that by (auto simp: collides_def)
  have ord: "s \<le> e" if "(t, s, e) \<in> set ?d" for t s e
    using that b by (auto simp: in_bounds_def)
  have cov_sh: "covers (shift_item pos len (t, s, e)) j =
      (if pos < s then s + len \<le> int j \<and> int j < e + len else covers (t, s, e) j)" for t s e j
    by (simp add: shift_item_def covers_def)
  have no_two: "\<not> (collides pos x \<and> covers x j \<and> \<not> collides pos y \<and> covers y j)"
    if "x \<in> set ?d" "y \<in> set ?d" for x y j
  proof
    assume a: "collides pos x \<and> covers x j \<and> \<not> collides pos y \<and> covers y j"
    then have "x \<noteq> y" by auto
    then have "fst x \<noteq> fst y" using d that by (meson eq_key_imp_eq_value prod_eqI distinct_map inj_onD)
    then have "snd (snd x) \<le> fst (snd y) \<or> snd (snd y) \<le> fst (snd x)"
      using dj that by (simp add: disjoint_ranges_def)
    then show False using a by (cases x; cases y) (auto simp: covers_def)
  qed
  have cells': "(genome g' ! j = CHR ''A'') = (\<exists>item \<in> set (te_identities g'). covers item j)"
    if j: "j < ?n + m" for j
  proof -
    consider (before) "j < k" | (inside) "k \<le> j" "j < k + m" | (after) "k + m \<le> j" by linarith
    then show ?thesis
    proof cases
      case before
      then have jn: "j < ?n" using k by simp
      have "(genome g' ! j = CHR ''A'') = (w ! j = CHR ''A'')" using before by (simp add: gn)
      also have "\<dots> = (\<exists>item \<in> set ?d. \<not> collides pos item \<and> covers item j)"
      proof
        assume "w ! j = CHR ''A''"
        then have nc: "\<not> (\<exists>item \<in> set ?d. collides pos item \<and> covers item j)"
          and "genome g ! j = CHR ''A''"
          using wn[OF jn] by (auto split: if_splits)
        then obtain item where "item \<in> set ?d" "covers item j" using cells jn by auto
        then show "\<exists>item \<in> set ?d. \<not> collides pos item \<and> covers item j" using nc by auto
      next
        assume "\<exists>item \<in> set ?d. \<not> collides pos item \<and> covers item j"
        then obtain y where y: "y \<in> set ?d" "\<not> collides pos y" "covers y j" by auto
        then have "\<not> (\<exists>x \<in> set ?d. collides pos x \<and> covers x j)" using no_two by blast
        moreover have "genome g ! j = CHR ''A''" using cells jn y by auto
        ultimately show "w ! j = CHR ''A''" using wn[OF jn] by simp
      qed
      also have "\<dots> = (\<exists>item \<in> set (te_identities g'). covers item j)"
      proof
        assume "\<exists>item \<in> set ?d. \<not> collides pos item \<and> covers item j"
        then obtain t s e where y: "(t, s, e) \<in> set ?d" "\<not> collides pos (t, s, e)" "covers (t, s, e) j"
          by auto
        then have "\<not> pos < s" using before k by (auto simp: covers_def)
        then have "covers (shift_item pos len (t, s, e)) j" using y by (simp add: cov_sh)
        then show "\<exists>item \<in> set (te_identities g'). covers item j"
          unfolding reg sh using y by blast
      next
        assume "\<exists>item \<in> set (te_identities g'). covers item j"
        then obtain item where it: "item \<in> insert new (set (shifted pos len ?d))" "covers item j"
          unfolding reg by blast
        have "\<not> covers new j" using before k by (auto simp: new_def covers_def)
        then obtain t s e where y: "(t, s, e) \<in> set ?d" "\<not> collides pos (t, s, e)"
          "item = shift_item pos len (t, s, e)"
          using it unfolding sh by auto
        have "\<not> pos < s" using it(2) y before k l by (auto simp: cov_sh split: if_splits)
        then have "covers (t, s, e) j" using it(2) y by (simp add: cov_sh)
        then show "\<exists>item \<in> set ?d. \<not> collides pos item \<and> covers item j" using y by blast
      qed
      finally show ?thesis .
    next
      case inside
      then have "genome g' ! j = CHR ''A''" by (simp add: gn)
      moreover have "covers new j" using inside k m by (auto simp: new_def covers_def)
      ultimately show ?thesis unfolding reg by blast
    next
      case after
      define j0 where "j0 = j - m"
      have j0: "j0 < ?n" "k \<le> j0" "int j = int j0 + len" using after j m by (auto simp: j0_def)
      have "(genome g' ! j = CHR ''A'') = (w ! j0 = CHR ''A'')" using after by (simp add: gn j0_def)
      also have "\<dots> = (\<exists>item \<in> set ?d. \<not> collides pos item \<and> covers item j0)"
      proof
        assume "w ! j0 = CHR ''A''"
        then have nc: "\<not> (\<exists>item \<in> set ?d. collides pos item \<and> covers item j0)"
          and "genome g ! j0 = CHR ''A''"
          using wn[OF j0(1)] by (auto split: if_splits)
        then obtain item where "item \<in> set ?d" "covers item j0" using cells j0 by auto
        then show "\<exists>item \<in> set ?d. \<not> collides pos item \<and> covers item j0" using nc by auto
      next
        assume "\<exists>item \<in> set ?d. \<not> collides pos item \<and> covers item j0"
        then obtain y where y: "y \<in> set ?d" "\<not> collides pos y" "covers y j0" by auto
        then have "\<not> (\<exists>x \<in> set ?d. collides pos x \<and> covers x j0)" using no_two by blast
        moreover have "genome g ! j0 = CHR ''A''" using cells j0 y by auto
        ultimately show "w ! j0 = CHR ''A''" using wn[OF j0(1)] by simp
      qed
      also have "\<dots> = (\<exists>item \<in> set (te_identities g'). covers item j)"
      proof
        assume "\<exists>item \<in> set ?d. \<not> collides pos item \<and> covers item j0"
        then obtain t s e where y: "(t, s, e) \<in> set ?d" "\<not> collides pos (t, s, e)" "covers (t, s, e) j0"
          by auto
        have c0: "s \<le> int j0 \<and> int j0 < e" using y(3) by (simp add: covers_def)
        have "pos < s" using kept[OF y(1,2)] c0 j0 k by auto
        then have "covers (shift_item pos len (t, s, e)) j" using c0 j0 by (simp add: cov_sh)
        then show "\<exists>item \<in> set (te_identities g'). covers item j"
          unfolding reg sh using y by blast
      next
        assume "\<exists>item \<in> set (te_identities g'). covers item j"
        then obtain item where it: "item \<in> insert new (set (shifted pos len ?d))" "covers item j"
          unfolding reg by blast
        have "\<not> covers new j" using after k m by (auto simp: new_def covers_def)
        then obtain t s e where y: "(t, s, e) \<in> set ?d" "\<not> collides pos (t, s, e)"
          "item = shift_item pos len (t, s, e)"
          using it unfolding sh by auto
        have "pos < s"
        proof (rule ccontr)
          assume "\<not> pos < s"
          then have "e \<le> pos" "covers (t, s, e) j" using kept[OF y(1,2)] it(2) y by (simp_all add: cov_sh)
          then show False using after k by (auto simp: covers_def)
        qed
        then have "s + len \<le> int j \<and> int j < e + len" using it(2) y by (simp add: cov_sh)
        then have "covers (t, s, e) j0" using j0 by (simp add: covers_def)
        then show "\<exists>item \<in> set ?d. \<not> collides pos item \<and> covers item j0" using y by blast
      qed
      finally show ?thesis .
    qed
  qed
  have dj': "disjoint_ranges (te_identities g')"
    unfolding disjoint_ranges_def
  proof (intro ballI impI)
    fix x y assume x: "x \<in> set (te_identities g')" and y: "y \<in> set (te_identities g')"
      and xy: "fst x \<noteq> fst y"
    have shape: "z = new \<or> (\<exists>t s e. (t, s, e) \<in> set ?d \<and> \<not> collides pos (t, s, e) \<and>
        z = shift_item pos len (t, s, e))" if "z \<in> set (te_identities g')" for z
      using that unfolding reg sh by auto
    have vs_new: "snd (snd (shift_item pos len (t, s, e))) \<le> fst (snd new) \<or>
        snd (snd new) \<le> fst (snd (shift_item pos len (t, s, e)))"
      if "(t, s, e) \<in> set ?d" "\<not> collides pos (t, s, e)" for t s e
      using kept[OF that] ord[OF that(1)] by (auto simp: shift_item_def new_def)
    from shape[OF x] shape[OF y] show "snd (snd x) \<le> fst (snd y) \<or> snd (snd y) \<le> fst (snd x)"
    proof (elim disjE exE conjE)
      assume "x = new" "y = new"
      then show ?thesis using xy by simp
    next
      fix t s e assume "x = new" "(t, s, e) \<in> set ?d" "\<not> collides pos (t, s, e)"
        "y = shift_item pos len (t, s, e)"
      then show ?thesis using vs_new by auto
    next
      fix t s e assume "y = new" "(t, s, e) \<in> set ?d" "\<not> collides pos (t, s, e)"
        "x = shift_item pos len (t, s, e)"
      then show ?thesis using vs_new by auto
    next
      fix t s e t' s' e'
      assume a: "(t, s, e) \<in> set ?d" "\<not> collides pos (t, s, e)" "x = shift_item pos len (t, s, e)"
        and c: "(t', s', e') \<in> set ?d" "\<not> collides pos (t', s', e')" "y = shift_item pos len (t', s', e')"
      have "t \<noteq> t'" using xy a c by (simp add: fst_shift_item)
      then have "e \<le> s' \<or> e' \<le> s" using dj a(1) c(1) by (force simp: disjoint_ranges_def)
      then show ?thesis
        using kept[OF a(1,2)] kept[OF c(1,2)] ord[OF a(1)] ord[OF c(1)] l a(3) c(3)
        by (auto simp: shift_item_def)
    qed
  qed
  have chars': "set (genome g') \<subseteq> {CHR ''-'', CHR ''A'', CHR ''x''}"
  proof -
    have "set w \<subseteq> insert CHR ''x'' (set (genome g))"
      unfolding w_def marked_def by (rule set_foldl_mark) (use b in simp)
    moreover have "set (genome g') \<subseteq> insert CHR ''A'' (set w)"
      unfolding g' by (auto dest: in_set_takeD in_set_dropD)
    ultimately show ?thesis using chars by auto
  qed
  show ?thesis
    unfolding active_cells_ok_def using wf' dj' cells' chars' lg by simp
qed

lemma distinct_key_unique:
  assumes "distinct (map fst d)" and "map_of d k = Some v" and "item \<in> set d"
  shows "(fst item = k) = (item = (k, v))"
proof -
  obtain k' v' where item: "item = (k', v')" by (cases item)
  have "map_of d k' = Some v'" using assms(1,3) item by simp
  then show ?thesis using assms(2) item by auto
qed

lemma list_disable_te_cells:
  assumes ok: "active_cells_ok g" and r: "list_disable_te te g = Inr g'"
  shows "active_cells_ok g'"
proof -
  let ?n = "length (genome g)"
  let ?d = "te_identities g"
  have wf: "list_wf g" and dj: "disjoint_ranges ?d"
    and cells: "\<forall>i < ?n. (genome g ! i = CHR ''A'') = (\<exists>item \<in> set ?d. covers item i)"
    and chars: "set (genome g) \<subseteq> {CHR ''-'', CHR ''A'', CHR ''x''}"
    using ok by (simp_all add: active_cells_ok_def)
  have wf': "list_wf g'" using list_disable_te_wf[OF wf r] by simp
  have d: "distinct (map fst ?d)" using wf by (simp add: list_wf_def)
  obtain s e where look: "map_of ?d te = Some (s, e)"
    using r by (auto simp: list_disable_te_def dict_get_def split: option.splits)
  then have g': "g' = g\<lparr>te_identities := AList.delete te ?d, genome := mark (genome g) (te, s, e)\<rparr>"
    using r by (simp add: list_disable_te_def dict_get_def dict_pop_def mark_def)
  have mem: "(te, s, e) \<in> set ?d" using look by (rule map_of_SomeD)
  then have b: "in_bounds ?n (te, s, e)" using wf by (auto simp: list_wf_def)
  then have se: "0 \<le> s" "s \<le> e" by (simp_all add: in_bounds_def)
  have lg: "length (genome g') = ?n" unfolding g' using length_mark[OF b] by simp
  have reg: "set (te_identities g') = set ?d - {(te, s, e)}"
  proof -
    have "set (AList.delete te ?d) = {item \<in> set ?d. fst item \<noteq> te}"
      by (auto simp: AList.delete_eq)
    also have "\<dots> = {item \<in> set ?d. item \<noteq> (te, s, e)}"
      using distinct_key_unique[OF d look] by blast
    also have "\<dots> = set ?d - {(te, s, e)}" by blast
    finally show ?thesis unfolding g' by simp
  qed
  have gn: "genome g' ! j = (if covers (te, s, e) j then CHR ''x'' else genome g ! j)" if "j < ?n" for j
  proof -
    have "covers (te, s, e) j = (nat s \<le> j \<and> j < nat e)" using se by (auto simp: covers_def)
    then show ?thesis unfolding g' using nth_mark[OF b that] by simp
  qed
  have cells': "(genome g' ! j = CHR ''A'') = (\<exists>item \<in> set (te_identities g'). covers item j)"
    if j: "j < ?n" for j
  proof (cases "covers (te, s, e) j")
    case True
    have "\<not> covers item j" if "item \<in> set ?d" "item \<noteq> (te, s, e)" for item
    proof
      assume c: "covers item j"
      have "fst item \<noteq> te"
        using that distinct_key_unique[OF d look, of item] by simp
      moreover have "\<forall>x\<in>set ?d. \<forall>y\<in>set ?d. fst x \<noteq> fst y \<longrightarrow>
          snd (snd x) \<le> fst (snd y) \<or> snd (snd y) \<le> fst (snd x)"
        using dj by (simp add: disjoint_ranges_def)
      ultimately have "snd (snd item) \<le> fst (snd (te, s, e)) \<or> snd (snd (te, s, e)) \<le> fst (snd item)"
        using that(1) mem by (metis fst_conv)
      then have "snd (snd item) \<le> s \<or> e \<le> fst (snd item)" by simp
      then show False using c True by (cases item) (auto simp: covers_def)
    qed
    then have "\<not> (\<exists>item \<in> set (te_identities g'). covers item j)"
      unfolding reg by blast
    moreover have "genome g' ! j = CHR ''x''" using True gn[OF j] by simp
    ultimately show ?thesis by simp
  next
    case False
    then have "(genome g' ! j = CHR ''A'') = (\<exists>item \<in> set ?d. covers item j)"
      using gn[OF j] cells j by simp
    also have "\<dots> = (\<exists>item \<in> set (te_identities g'). covers item j)"
      unfolding reg using False by blast
    finally show ?thesis .
  qed
  have dj': "disjoint_ranges (te_identities g')"
    using dj reg by (simp add: disjoint_ranges_def)
  have chars': "set (genome g') \<subseteq> {CHR ''-'', CHR ''A'', CHR ''x''}"
  proof -
    have "set (genome g') \<subseteq> insert CHR ''x'' (set (genome g))"
      unfolding g' using set_foldl_mark[of "[(te, s, e)]" "genome g"] b by simp
    then show ?thesis using chars by auto
  qed
  show ?thesis
    unfolding active_cells_ok_def using wf' dj' cells' chars' lg by simp
qed

lemma list_copy_te_cells:
  assumes ok: "active_cells_ok g" and r: "list_copy_te te offset g = Inr (res, g')"
  shows "active_cells_ok g'"
proof (cases "map_of (te_identities g) te")
  case None
  then show ?thesis using r ok by (simp add: list_copy_te_def)
next
  case (Some se)
  obtain s e where se: "se = (s, e)" by (cases se) auto
  obtain i where ins: "list_insert_te (s + offset) (e - s) g = Inr (i, g')"
    using r Some se by (auto simp: list_copy_te_def Let_def split: sum.splits)
  have "(te, s, e) \<in> set (te_identities g)" using Some se by (simp add: map_of_SomeD)
  then have "0 \<le> e - s" using ok by (auto simp: active_cells_ok_def list_wf_def in_bounds_def)
  from list_insert_te_cells[OF ok this ins] show ?thesis .
qed

lemma list_init_cells: "active_cells_ok (list_init n)"
  by (auto simp: active_cells_ok_def list_wf_def disjoint_ranges_def list_init_def times_list_def)

lemma list_apply_cells:
  assumes "active_cells_ok g" "nonneg_len c"
  shows "active_cells_ok (list_apply c g)"
proof (cases c)
  case (Insert_te p len)
  then show ?thesis using assms list_insert_te_cells[of g len p]
    by (auto simp: nonneg_len_def split: sum.splits)
next
  case (Copy_te te offset)
  then show ?thesis using assms list_copy_te_cells[of g te offset]
    by (auto split: sum.splits)
next
  case (Disable_te te)
  then show ?thesis using assms list_disable_te_cells[of g te]
    by (auto split: sum.splits)
qed

lemma list_run_cells: "list_all nonneg_len ops \<Longrightarrow> active_cells_ok (list_run n ops)"
proof (induction ops rule: rev_induct)
  case Nil
  show ?case by (simp add: list_run_def list_init_cells)
next
  case (snoc c ops)
  then show ?case using list_apply_cells[of "list_run n ops" c] by (simp add: list_run_snoc)
qed

text \<open>
  The invariant holds in \<open>ListGenome\<close> after every script of insertions of
  non-negative length: \<open>render()\<close> has \<open>A\<close> exactly at the indices that the range of an
  active id covers, and \<open>-\<close> or \<open>x\<close> elsewhere.
\<close>

lemma list_render_matches_registry:
  assumes "list_all nonneg_len ops" and "i < length (list_str (list_run n ops))"
  shows "(list_str (list_run n ops) ! i = CHR ''A'') =
           (\<exists>te \<in> set (list_active_tes (list_run n ops)). \<exists>s e.
              map_of (te_identities (list_run n ops)) te = Some (s, e) \<and> s \<le> int i \<and> int i < e)"
    and "list_str (list_run n ops) ! i \<in> {CHR ''-'', CHR ''A'', CHR ''x''}"
proof -
  let ?g = "list_run n ops"
  have ok: "active_cells_ok ?g" by (rule list_run_cells[OF assms(1)])
  then have d: "distinct (map fst (te_identities ?g))" by (simp add: active_cells_ok_def list_wf_def)
  have i: "i < length (genome ?g)" using assms(2) by (simp add: list_str_def)
  have "(genome ?g ! i = CHR ''A'') = (\<exists>item \<in> set (te_identities ?g). covers item i)"
    using ok i by (simp add: active_cells_ok_def)
  also have "\<dots> = (\<exists>te \<in> set (list_active_tes ?g). \<exists>s e.
              map_of (te_identities ?g) te = Some (s, e) \<and> s \<le> int i \<and> int i < e)"
  proof
    assume "\<exists>item \<in> set (te_identities ?g). covers item i"
    then obtain te s e where m: "(te, s, e) \<in> set (te_identities ?g)" "s \<le> int i \<and> int i < e"
      by (auto simp: covers_def)
    then have "map_of (te_identities ?g) te = Some (s, e)" using d by simp
    moreover have "te \<in> set (list_active_tes ?g)" using m by (force simp: list_active_tes_def)
    ultimately show "\<exists>te \<in> set (list_active_tes ?g). \<exists>s e.
              map_of (te_identities ?g) te = Some (s, e) \<and> s \<le> int i \<and> int i < e"
      using m by blast
  next
    assume "\<exists>te \<in> set (list_active_tes ?g). \<exists>s e.
              map_of (te_identities ?g) te = Some (s, e) \<and> s \<le> int i \<and> int i < e"
    then obtain te s e where "map_of (te_identities ?g) te = Some (s, e)" "s \<le> int i \<and> int i < e"
      by blast
    then have "(te, s, e) \<in> set (te_identities ?g)" "covers (te, s, e) i"
      by (simp_all add: map_of_SomeD covers_def)
    then show "\<exists>item \<in> set (te_identities ?g). covers item i" by blast
  qed
  finally show "(list_str ?g ! i = CHR ''A'') =
           (\<exists>te \<in> set (list_active_tes ?g). \<exists>s e.
              map_of (te_identities ?g) te = Some (s, e) \<and> s \<le> int i \<and> int i < e)"
    by (simp add: list_str_def)
  have "genome ?g ! i \<in> set (genome ?g)" using i by simp
  then show "list_str ?g ! i \<in> {CHR ''-'', CHR ''A'', CHR ''x''}"
    using ok by (auto simp: active_cells_ok_def list_str_def)
qed

text \<open>
  \<open>LinkedListGenome\<close> has the same invariant on the scripts of \<open>agree_script\<close>, where
  it keeps the cells and the registry of \<open>ListGenome\<close>.
\<close>

lemma agree_script_nonneg: "agree_script g ops \<Longrightarrow> list_all nonneg_len ops"
proof (induction ops arbitrary: g)
  case Nil
  show ?case by simp
next
  case (Cons c ops)
  then have "agree g c" and "list_all nonneg_len ops" by auto
  moreover have "nonneg_len c" using \<open>agree g c\<close>
    by (cases c) (simp_all add: agree_def nonneg_len_def)
  ultimately show ?case by simp
qed

lemma linked_render_matches_registry:
  assumes n: "0 \<le> n" and ag: "agree_script (list_init n) ops"
    and i: "i < length (list_str (list_run n ops))"
  shows "linked_str (linked_run n ops) = Inr (list_str (list_run n ops))"
    and "(list_str (list_run n ops) ! i = CHR ''A'') =
           (\<exists>te \<in> set (linked_active_tes (linked_run n ops)). \<exists>s e.
              map_of (ll_te_identities (linked_run n ops)) te = Some (s, e) \<and> s \<le> int i \<and> int i < e)"
proof -
  from script_agree[OF linked_init_represents[OF n] list_init_wf ag]
  obtain cs where rep: "represents (linked_run n ops) cs (list_run n ops)"
    by (auto simp: linked_run_def list_run_def)
  show "linked_str (linked_run n ops) = Inr (list_str (list_run n ops))"
    by (rule linked_str_represents[OF rep])
  have "ll_te_identities (linked_run n ops) = te_identities (list_run n ops)"
    using rep by (simp add: represents_def)
  then show "(list_str (list_run n ops) ! i = CHR ''A'') =
           (\<exists>te \<in> set (linked_active_tes (linked_run n ops)). \<exists>s e.
              map_of (ll_te_identities (linked_run n ops)) te = Some (s, e) \<and> s \<le> int i \<and> int i < e)"
    using list_render_matches_registry(1)[OF agree_script_nonneg[OF ag] i]
      linked_obs_represents(2)[OF rep] by simp
qed

section \<open>When \<open>insert_te\<close> raises\<close>

text \<open>
  With a registry of distinct keys, \<open>insert_te\<close> raises \<open>ValueError\<close> exactly when
  \<open>pos\<close> is greater than the length, in both classes. Otherwise the linked genome
  always returns, and the list genome returns unless it is empty, where \<open>pos % 0\<close>
  raises \<open>ZeroDivisionError\<close>.
\<close>

lemma list_insert_te_raises:
  assumes "distinct (map fst (te_identities L))"
  shows "(list_insert_te pos len L = Inl ValueError) = (list_len L < pos)"
    and "pos \<le> list_len L \<Longrightarrow> genome L \<noteq> [] \<Longrightarrow> \<exists>r. list_insert_te pos len L = Inr r"
    and "pos \<le> list_len L \<Longrightarrow> genome L = [] \<Longrightarrow> list_insert_te pos len L = Inl ZeroDivisionError"
proof -
  show ok: "\<exists>r. list_insert_te pos len L = Inr r" if "pos \<le> list_len L" "genome L \<noteq> []"
    using list_insert_te_eq[OF assms, of pos len] that by (simp add: list_len_def Let_def)
  show z: "list_insert_te pos len L = Inl ZeroDivisionError" if "pos \<le> list_len L" "genome L = []"
    using that by (simp add: list_insert_te_def list_len_def)
  show "(list_insert_te pos len L = Inl ValueError) = (list_len L < pos)"
  proof (cases "list_len L < pos")
    case True
    then show ?thesis by (simp add: list_insert_te_def list_len_def)
  next
    case False
    then have p: "pos \<le> list_len L" by simp
    have "list_insert_te pos len L \<noteq> Inl ValueError"
    proof (cases "genome L = []")
      case True
      then show ?thesis using z[OF p] by simp
    next
      case False
      then show ?thesis using ok[OF p] by auto
    qed
    then show ?thesis using False by simp
  qed
qed

lemma linked_insert_te_raises:
  assumes "distinct (map fst (ll_te_identities K))"
  shows "(linked_insert_te pos len K = Inl ValueError) = (linked_len K < pos)"
    and "pos \<le> linked_len K \<Longrightarrow> \<exists>r. linked_insert_te pos len K = Inr r"
proof -
  show ok: "\<exists>r. linked_insert_te pos len K = Inr r" if "pos \<le> linked_len K"
  proof -
    have "pos \<le> glength K" using that by (simp add: linked_len_def)
    from linked_insert_te_general[OF assms this, of len] show ?thesis by blast
  qed
  show "(linked_insert_te pos len K = Inl ValueError) = (linked_len K < pos)"
  proof (cases "linked_len K < pos")
    case True
    then show ?thesis by (simp add: linked_insert_te_def linked_len_def)
  next
    case False
    then have "\<exists>r. linked_insert_te pos len K = Inr r" using ok by simp
    then show ?thesis using False by auto
  qed
qed

section \<open>Claims\<close>

text \<open>
  C10. In \<open>ListGenome\<close>, \<open>insert_te\<close> with a negative position \<open>pos\<close> in
  \<open>[-length, 0)\<close> does not fail: the range check rejects only \<open>pos > length\<close>, the
  modulo maps \<open>pos\<close> to \<open>length + pos\<close>, and the call returns what
  \<open>insert_te(pos + length, len)\<close> returns, the same id and the same state; the new TE
  is registered at \<open>length + pos\<close>. The registry is a Python dict, so its keys are
  distinct.
\<close>

theorem list_insert_te_negative_pos:
  assumes "distinct (map fst (te_identities g))"
    and "- list_len g \<le> pos" and "pos < 0"
  shows "list_insert_te pos len g = list_insert_te (pos + list_len g) len g \<and>
         (\<exists>g'. list_insert_te pos len g = Inr (te_count g + 1, g') \<and>
               map_of (te_identities g') (te_count g + 1)
                 = Some (pos + list_len g, pos + list_len g + len))"
proof -
  let ?n = "int (length (genome g))"
  have n: "genome g \<noteq> []" using assms(2,3) by (auto simp: list_len_def)
  have m: "pos mod ?n = pos + ?n"
  proof -
    have "pos mod ?n = (pos + ?n) mod ?n" by simp
    also have "\<dots> = pos + ?n"
      by (rule mod_pos_pos_trivial) (use assms(2,3) in \<open>simp_all add: list_len_def\<close>)
    finally show ?thesis .
  qed
  have m': "(pos + ?n) mod ?n = pos + ?n"
    by (rule mod_pos_pos_trivial) (use assms(2,3) in \<open>simp_all add: list_len_def\<close>)
  have a: "pos \<le> ?n" using assms(3) by simp
  have b: "pos + ?n \<le> ?n" using assms(3) by simp
  show ?thesis
    unfolding list_len_def list_insert_te_eq[OF assms(1) a n] list_insert_te_eq[OF assms(1) b n]
    by (simp only: m m' Let_def)
       (simp add: dict_set_def update_conv')
qed

theorem list_insert_te_negative_pos_witness:
  "list_insert_te (- 3) 2 (list_init 10) = list_insert_te 7 2 (list_init 10) \<and>
   (\<exists>g'. list_insert_te (- 3) 2 (list_init 10) = Inr (1, g') \<and>
          map_of (te_identities g') 1 = Some (7, 9))"
proof -
  have h: "distinct (map fst (te_identities (list_init 10)))"
    "- list_len (list_init 10) \<le> - 3" "(- 3 :: int) < 0"
    by (simp_all add: list_init_def list_len_def times_list_def)
  have e: "- 3 + list_len (list_init 10) = 7" "te_count (list_init 10) + 1 = 1" "(7::int) + 2 = 9"
    by (simp_all add: list_init_def list_len_def times_list_def)
  from list_insert_te_negative_pos[OF h, of 2] show ?thesis
    unfolding e .
qed

text \<open>
  C8. \<open>copy_te(te, offset)\<close> for an id that is not active (a disabled id or one that
  was never issued is not a key of the registry) returns \<open>None\<close> and leaves the genome
  as it was, so \<open>length()\<close>, \<open>render()\<close> and \<open>active_tes()\<close> are unchanged; in both
  classes and for every offset.
\<close>

theorem copy_te_inactive_no_mutation:
  "(te \<notin> set (list_active_tes g) \<longrightarrow> list_copy_te te offset g = Inr (None, g)) \<and>
   (te \<notin> set (linked_active_tes k) \<longrightarrow> linked_copy_te te offset k = Inr (None, k))"
proof -
  have "map_of d te = None" if "te \<notin> set (map fst d)" for d :: te_dict
    using that by (simp add: map_of_eq_None_iff)
  then show ?thesis
    by (simp add: list_copy_te_def linked_copy_te_def list_active_tes_def linked_active_tes_def)
qed

theorem copy_te_inactive_no_mutation_witness:
  "list_copy_te 1 4 (list_init 10) = Inr (None, list_init 10) \<and>
   linked_copy_te 1 4 (linked_init 10) = Inr (None, linked_init 10)"
  using copy_te_inactive_no_mutation[of 1 "list_init 10" 4 "linked_init 10"]
  by (simp add: list_active_tes_def linked_active_tes_def list_init_def linked_init_def Let_def)

text \<open>
  C2. \<open>disable_te\<close> on an id that is not in the registry is claimed to be a no-op.
  The code evaluates \<open>self.te_identities[te]\<close> first, which raises \<open>KeyError\<close>: for an
  id that was never issued and for the second of two calls on the same id, in both
  classes.
\<close>

theorem disable_te_unknown_raises:
  "list_disable_te 1 (list_init 10) = Inl KeyError \<and>
   linked_disable_te 1 (linked_init 10) = Inl KeyError \<and>
   (case list_insert_te 5 3 (list_init 10) of
      Inl e \<Rightarrow> False
    | Inr (te, g1) \<Rightarrow>
        (case list_disable_te te g1 of
           Inl e \<Rightarrow> False
         | Inr g2 \<Rightarrow> list_str g2 = ''-----xxx-----'' \<and> list_disable_te te g2 = Inl KeyError)) \<and>
   (case linked_insert_te 5 3 (linked_init 10) of
      Inl e \<Rightarrow> False
    | Inr (te, k1) \<Rightarrow>
        (case linked_disable_te te k1 of
           Inl e \<Rightarrow> False
         | Inr k2 \<Rightarrow> linked_str k2 = Inr ''-----xxx-----'' \<and> linked_disable_te te k2 = Inl KeyError))"
proof -
  have a: "list_disable_te 1 (list_init 10) = Inl KeyError"
    by (rule list_disable_te_unknown) (simp add: list_init_def)
  have b: "linked_disable_te 1 (linked_init 10) = Inl KeyError"
    by (rule linked_disable_te_unknown) (simp add: linked_init_def Let_def)
  have e: "list_disable_te 1 \<lparr>genome = ''-----xxx-----'', te_identities = [], te_count = 1\<rparr>
      = Inl KeyError"
    by (rule list_disable_te_unknown) simp
  obtain K1 cs1 where k1: "linked_insert_te 5 3 (linked_init 10) = Inr (1, K1)"
    and rep1: "represents K1 cs1 \<lparr>genome = ''-----AAA-----'', te_identities = [(1, (5, 8))], te_count = 1\<rparr>"
    using linked_scenario_5_3 by blast
  obtain K2 where k2: "linked_disable_te 1 K1 = Inr K2"
    and rep2: "represents K2 cs1 \<lparr>genome = ''-----xxx-----'', te_identities = [], te_count = 1\<rparr>"
    using linked_scenario_disable[OF rep1] by blast
  have "ll_te_identities K2 = []" using rep2 by (simp add: represents_def)
  then have k3: "linked_disable_te 1 K2 = Inl KeyError"
    by (intro linked_disable_te_unknown) simp
  show ?thesis
    using linked_str_represents[OF rep2]
    by (simp add: a b e k1 k2 k3 list_scenario_5_3 list_scenario_disable list_str_def)
qed

text \<open>
  C1. The two classes are claimed to give the same \<open>render()\<close>, \<open>active_tes()\<close> and
  \<open>length()\<close> after every step of every script. After the one-step script
  \<open>insert_te(0, 2)\<close> on genomes of 10 cells they return the same id and have the same
  length and active ids, but \<open>ListGenome\<close> renders the new TE at indices 0 and 1 and
  \<open>LinkedListGenome\<close> at indices 1 and 2: its walk starts at the first cell,
  \<open>range(pos - 1)\<close> is empty for \<open>pos = 0\<close>, and it inserts after that cell.
\<close>

theorem variants_differ_insert_at_0:
  "(case list_insert_te 0 2 (list_init 10) of
      Inl e \<Rightarrow> False
    | Inr (te, L) \<Rightarrow> te = 1 \<and> list_str L = ''AA----------'' \<and> list_active_tes L = [1] \<and> list_len L = 12) \<and>
   (case linked_insert_te 0 2 (linked_init 10) of
      Inl e \<Rightarrow> False
    | Inr (te, K) \<Rightarrow> te = 1 \<and> linked_str K = Inr ''-AA---------'' \<and> linked_active_tes K = [1] \<and> linked_len K = 12)"
proof -
  obtain K cs where k: "linked_insert_te 0 2 (linked_init 10) = Inr (1, K)"
    and rep: "represents K cs \<lparr>genome = ''-AA---------'', te_identities = [(1, (0, 2))], te_count = 1\<rparr>"
    using linked_pos0 by blast
  show ?thesis
    using linked_str_represents[OF rep] linked_obs_represents[OF rep]
    by (simp add: k list_pos0 list_str_def list_len_def list_active_tes_def)
qed

text \<open>
  C3. \<open>insert_te\<close> is claimed, for both classes, to reduce \<open>pos\<close> modulo the length,
  so that \<open>pos = length\<close> inserts at position 0, and never to fail for
  \<open>0 \<le> pos \<le> length\<close>. \<open>LinkedListGenome.insert_te(10, 2)\<close> on 10 cells registers the
  range \<open>(10, 12)\<close> and appends the cells at the end, where \<open>ListGenome\<close> registers
  \<open>(0, 2)\<close> and puts them in front; and \<open>ListGenome(0).insert_te(0, 2)\<close> raises
  \<open>ZeroDivisionError\<close>.
\<close>

theorem linked_insert_te_at_length_appends:
  "(case linked_insert_te 10 2 (linked_init 10) of
      Inl e \<Rightarrow> False
    | Inr (te, K) \<Rightarrow> te = 1 \<and> linked_str K = Inr ''----------AA'' \<and>
        ll_te_identities K = [(1, (10, 12))]) \<and>
   (case list_insert_te 10 2 (list_init 10) of
      Inl e \<Rightarrow> False
    | Inr (te, L) \<Rightarrow> te = 1 \<and> list_str L = ''AA----------'' \<and> te_identities L = [(1, (0, 2))]) \<and>
   list_insert_te 0 2 (list_init 0) = Inl ZeroDivisionError"
proof -
  obtain K cs where k: "linked_insert_te 10 2 (linked_init 10) = Inr (1, K)"
    and rep: "represents K cs \<lparr>genome = ''----------AA'', te_identities = [(1, (10, 12))], te_count = 1\<rparr>"
    using linked_pos10 by blast
  have "ll_te_identities K = [(1, (10, 12))]" using rep by (simp add: represents_def)
  moreover have "list_insert_te 0 2 (list_init 0) = Inl ZeroDivisionError"
    by (simp add: list_insert_te_def list_init_def times_list_def)
  ultimately show ?thesis
    using linked_str_represents[OF rep]
    by (simp add: k list_pos10 list_str_def)
qed

text \<open>
  C5. The indices at which \<open>render()\<close> yields \<open>A\<close> are claimed to be the union of the
  registered ranges of the active ids, in both classes. After
  \<open>LinkedListGenome(10).insert_te(0, 2)\<close> the only active id has the range \<open>(0, 2)\<close>,
  while \<open>render()\<close> is \<open>-AA---------\<close>: index 0, inside the range, is \<open>-\<close>, and
  index 2, outside it, is \<open>A\<close>.
\<close>

theorem linked_render_disagrees_with_registry:
  "(case linked_insert_te 0 2 (linked_init 10) of
      Inl e \<Rightarrow> False
    | Inr (te, K) \<Rightarrow>
        linked_active_tes K = [te] \<and> map_of (ll_te_identities K) te = Some (0, 2) \<and>
        (case linked_str K of
           Inl e \<Rightarrow> False
         | Inr s \<Rightarrow> s = ''-AA---------'' \<and> s ! 0 = CHR ''-'' \<and> s ! 2 = CHR ''A''))"
proof -
  obtain K cs where k: "linked_insert_te 0 2 (linked_init 10) = Inr (1, K)"
    and rep: "represents K cs \<lparr>genome = ''-AA---------'', te_identities = [(1, (0, 2))], te_count = 1\<rparr>"
    using linked_pos0 by blast
  have "ll_te_identities K = [(1, (0, 2))]" using rep by (simp add: represents_def)
  then show ?thesis
    using linked_str_represents[OF rep]
    by (simp add: k list_str_def linked_active_tes_def)
qed

text \<open>
  C4. \<open>copy_te\<close> of an active TE is claimed never to fail and to wrap a target past
  the end around. On a genome of length 10 with the TE 1 at \<open>(1, 3)\<close>,
  \<open>copy_te(1, 10)\<close> has the target \<open>11 > 10\<close> and raises \<open>ValueError\<close> in both
  classes: \<open>insert_te\<close> checks \<open>pos > length\<close> before it reduces \<open>pos\<close>. The
  scenario of the claim itself, \<open>copy_te(1, -5)\<close>, does what the claim says: a new TE
  2 of length 2 at position 6, TE 1 still at \<open>(1, 3)\<close>.
\<close>

theorem copy_te_past_the_end_raises:
  "(case list_insert_te 1 2 (list_init 8) of
      Inl e \<Rightarrow> False
    | Inr (te, L) \<Rightarrow>
        map_of (te_identities L) te = Some (1, 3) \<and> list_len L = 10 \<and>
        list_copy_te te 10 L = Inl ValueError \<and>
        (case list_copy_te te (- 5) L of
           Inl e \<Rightarrow> False
         | Inr (new, L') \<Rightarrow> new = Some 2 \<and> list_str L' = ''-AA---AA----'' \<and>
             te_identities L' = [(1, (1, 3)), (2, (6, 8))])) \<and>
   (case linked_insert_te 1 2 (linked_init 8) of
      Inl e \<Rightarrow> False
    | Inr (te, K) \<Rightarrow>
        map_of (ll_te_identities K) te = Some (1, 3) \<and> linked_len K = 10 \<and>
        linked_copy_te te 10 K = Inl ValueError \<and>
        (case linked_copy_te te (- 5) K of
           Inl e \<Rightarrow> False
         | Inr (new, K') \<Rightarrow> new = Some 2 \<and> linked_str K' = Inr ''-AA---AA----'' \<and>
             ll_te_identities K' = [(1, (1, 3)), (2, (6, 8))]))"
proof -
  let ?L = "\<lparr>genome = ''-AA-------'', te_identities = [(1, (1, 3))], te_count = 1\<rparr>"
  let ?L' = "\<lparr>genome = ''-AA---AA----'', te_identities = [(1, (1, 3)), (2, (6, 8))], te_count = 2\<rparr>"
  have a: "list_copy_te 1 10 ?L = Inl ValueError"
    by (simp add: list_copy_te_def list_insert_te_def)
  have A: "case list_insert_te 1 2 (list_init 8) of
      Inl e \<Rightarrow> False
    | Inr (te, L) \<Rightarrow>
        map_of (te_identities L) te = Some (1, 3) \<and> list_len L = 10 \<and>
        list_copy_te te 10 L = Inl ValueError \<and>
        (case list_copy_te te (- 5) L of
           Inl e \<Rightarrow> False
         | Inr (new, L') \<Rightarrow> new = Some 2 \<and> list_str L' = ''-AA---AA----'' \<and>
             te_identities L' = [(1, (1, 3)), (2, (6, 8))])"
    by (simp add: list_scenario_1_3 a list_copy_minus_5 list_len_def list_str_def)
  obtain K cs where k: "linked_insert_te 1 2 (linked_init 8) = Inr (1, K)"
    and rep: "represents K cs ?L"
    using linked_scenario_1_3 by blast
  have reg: "ll_te_identities K = [(1, (1, 3))]" and gl: "glength K = 10"
    using rep represents_length[OF rep] by (simp_all add: represents_def)
  have b: "linked_copy_te 1 10 K = Inl ValueError"
    using reg gl by (simp add: linked_copy_te_def linked_insert_te_def)
  have "\<exists>K' cs'. linked_insert_te 6 2 K = Inr (te_count ?L + 1, K') \<and>
           represents K' cs' (linked_insert_te_abs 6 2 ?L)"
    by (rule linked_insert_te_eval[OF rep]) (simp_all add: eval_defs)
  then obtain K' cs' where k': "linked_insert_te 6 2 K = Inr (2, K')"
    and rep': "represents K' cs' ?L'"
    by (auto simp: eval_defs eval_nat_numeral)
  have c: "linked_copy_te 1 (- 5) K = Inr (Some 2, K')"
    using reg gl k' by (simp add: linked_copy_te_def)
  have reg': "ll_te_identities K' = [(1, (1, 3)), (2, (6, 8))]"
    using rep' by (simp add: represents_def)
  have B: "case linked_insert_te 1 2 (linked_init 8) of
      Inl e \<Rightarrow> False
    | Inr (te, K) \<Rightarrow>
        map_of (ll_te_identities K) te = Some (1, 3) \<and> linked_len K = 10 \<and>
        linked_copy_te te 10 K = Inl ValueError \<and>
        (case linked_copy_te te (- 5) K of
           Inl e \<Rightarrow> False
         | Inr (new, K') \<Rightarrow> new = Some 2 \<and> linked_str K' = Inr ''-AA---AA----'' \<and>
             ll_te_identities K' = [(1, (1, 3)), (2, (6, 8))])"
    using linked_str_represents[OF rep']
    by (simp add: k reg gl b c reg' linked_len_def list_str_def)
  show ?thesis using A B by (rule conjI)
qed

text \<open>
  C7. Shift correctness. On the scenario, in both classes: from a genome of length 10,
  \<open>id1 = insert_te(5, 3)\<close> gives the active ids \<open>[id1]\<close>, the range \<open>(5, 8)\<close>, length 13
  and \<open>A\<close> exactly at the indices 5, 6, 7; then \<open>id2 = insert_te(2, 2)\<close> moves the range
  of \<open>id1\<close> to \<open>(7, 10)\<close>, the length is 15 and \<open>A\<close> is exactly at 2, 3 and 7, 8, 9. In
  general, for a registry with distinct keys that are ids issued so far: an insertion
  that passes the range check succeeds, moves every entry whose start lies after the
  insertion position by the inserted length, and leaves an entry that ends at or before
  the position as it is. The position is \<open>p mod length\<close> in \<open>ListGenome\<close> and \<open>p\<close>
  itself in \<open>LinkedListGenome\<close>.
\<close>

theorem insert_te_shifts_later_entries:
  "(case list_insert_te 5 3 (list_init 10) of
      Inl e \<Rightarrow> False
    | Inr (id1, g1) \<Rightarrow>
        list_active_tes g1 = [id1] \<and> map_of (te_identities g1) id1 = Some (5, 8) \<and>
        list_len g1 = 13 \<and> list_str g1 = ''-----AAA-----'' \<and>
        (case list_insert_te 2 2 g1 of
           Inl e \<Rightarrow> False
         | Inr (id2, g2) \<Rightarrow>
             list_active_tes g2 = [id1, id2] \<and> id2 \<noteq> id1 \<and>
             map_of (te_identities g2) id1 = Some (7, 10) \<and>
             map_of (te_identities g2) id2 = Some (2, 4) \<and>
             list_len g2 = 15 \<and> list_str g2 = ''--AA---AAA-----'')) \<and>
   (case linked_insert_te 5 3 (linked_init 10) of
      Inl e \<Rightarrow> False
    | Inr (id1, k1) \<Rightarrow>
        linked_active_tes k1 = [id1] \<and> map_of (ll_te_identities k1) id1 = Some (5, 8) \<and>
        linked_len k1 = 13 \<and> linked_str k1 = Inr ''-----AAA-----'' \<and>
        (case linked_insert_te 2 2 k1 of
           Inl e \<Rightarrow> False
         | Inr (id2, k2) \<Rightarrow>
             linked_active_tes k2 = [id1, id2] \<and> id2 \<noteq> id1 \<and>
             map_of (ll_te_identities k2) id1 = Some (7, 10) \<and>
             map_of (ll_te_identities k2) id2 = Some (2, 4) \<and>
             linked_len k2 = 15 \<and> linked_str k2 = Inr ''--AA---AAA-----'')) \<and>
   (distinct (list_active_tes g) \<and> (\<forall>k \<in> set (list_active_tes g). k \<le> te_count g) \<and>
    p \<le> list_len g \<and> 0 < list_len g \<and> map_of (te_identities g) t = Some (s, e) \<longrightarrow>
      (\<exists>g'. list_insert_te p len g = Inr (te_count g + 1, g') \<and>
         (p mod list_len g < s \<longrightarrow> map_of (te_identities g') t = Some (s + len, e + len)) \<and>
         (e \<le> p mod list_len g \<longrightarrow> s \<le> e \<longrightarrow> map_of (te_identities g') t = Some (s, e)))) \<and>
   (distinct (linked_active_tes k) \<and> (\<forall>i \<in> set (linked_active_tes k). i \<le> ll_te_count k) \<and>
    q \<le> linked_len k \<and> map_of (ll_te_identities k) u = Some (a, b) \<longrightarrow>
      (\<exists>k'. linked_insert_te q m k = Inr (ll_te_count k + 1, k') \<and>
         (q < a \<longrightarrow> map_of (ll_te_identities k') u = Some (a + m, b + m)) \<and>
         (b \<le> q \<longrightarrow> a \<le> b \<longrightarrow> map_of (ll_te_identities k') u = Some (a, b))))"
proof (intro conjI impI)
  show "case list_insert_te 5 3 (list_init 10) of
      Inl e \<Rightarrow> False
    | Inr (id1, g1) \<Rightarrow>
        list_active_tes g1 = [id1] \<and> map_of (te_identities g1) id1 = Some (5, 8) \<and>
        list_len g1 = 13 \<and> list_str g1 = ''-----AAA-----'' \<and>
        (case list_insert_te 2 2 g1 of
           Inl e \<Rightarrow> False
         | Inr (id2, g2) \<Rightarrow>
             list_active_tes g2 = [id1, id2] \<and> id2 \<noteq> id1 \<and>
             map_of (te_identities g2) id1 = Some (7, 10) \<and>
             map_of (te_identities g2) id2 = Some (2, 4) \<and>
             list_len g2 = 15 \<and> list_str g2 = ''--AA---AAA-----'')"
    by (rule list_scenario_shift)
  show "case linked_insert_te 5 3 (linked_init 10) of
      Inl e \<Rightarrow> False
    | Inr (id1, k1) \<Rightarrow>
        linked_active_tes k1 = [id1] \<and> map_of (ll_te_identities k1) id1 = Some (5, 8) \<and>
        linked_len k1 = 13 \<and> linked_str k1 = Inr ''-----AAA-----'' \<and>
        (case linked_insert_te 2 2 k1 of
           Inl e \<Rightarrow> False
         | Inr (id2, k2) \<Rightarrow>
             linked_active_tes k2 = [id1, id2] \<and> id2 \<noteq> id1 \<and>
             map_of (ll_te_identities k2) id1 = Some (7, 10) \<and>
             map_of (ll_te_identities k2) id2 = Some (2, 4) \<and>
             linked_len k2 = 15 \<and> linked_str k2 = Inr ''--AA---AAA-----'')"
    by (rule linked_scenario_shift)
next
  assume "distinct (list_active_tes g) \<and> (\<forall>k \<in> set (list_active_tes g). k \<le> te_count g) \<and>
    p \<le> list_len g \<and> 0 < list_len g \<and> map_of (te_identities g) t = Some (s, e)"
  then show "\<exists>g'. list_insert_te p len g = Inr (te_count g + 1, g') \<and>
         (p mod list_len g < s \<longrightarrow> map_of (te_identities g') t = Some (s + len, e + len)) \<and>
         (e \<le> p mod list_len g \<longrightarrow> s \<le> e \<longrightarrow> map_of (te_identities g') t = Some (s, e))"
    using list_insert_te_shift[of g p t s e len] by (simp add: list_active_tes_def)
next
  assume "distinct (linked_active_tes k) \<and> (\<forall>i \<in> set (linked_active_tes k). i \<le> ll_te_count k) \<and>
    q \<le> linked_len k \<and> map_of (ll_te_identities k) u = Some (a, b)"
  then show "\<exists>k'. linked_insert_te q m k = Inr (ll_te_count k + 1, k') \<and>
         (q < a \<longrightarrow> map_of (ll_te_identities k') u = Some (a + m, b + m)) \<and>
         (b \<le> q \<longrightarrow> a \<le> b \<longrightarrow> map_of (ll_te_identities k') u = Some (a, b))"
    using linked_insert_te_shift[of k q u a b m] by (simp add: linked_active_tes_def)
qed

theorem insert_te_shifts_later_entries_witness:
  "(\<exists>g'. list_insert_te 2 2 (list_apply (Insert_te 5 3) (list_init 10)) = Inr (2, g') \<and>
      map_of (te_identities g') 1 = Some (7, 10)) \<and>
   (\<exists>k'. linked_insert_te 2 2 (linked_apply (Insert_te 5 3) (linked_init 10)) = Inr (2, k') \<and>
      map_of (ll_te_identities k') 1 = Some (7, 10))"
proof
  define g where "g = list_apply (Insert_te 5 3) (list_init 10)"
  have g: "g = \<lparr>genome = ''-----AAA-----'', te_identities = [(1, (5, 8))], te_count = 1\<rparr>"
    by (simp add: g_def list_scenario_5_3)
  have "distinct (list_active_tes g) \<and> (\<forall>k \<in> set (list_active_tes g). k \<le> te_count g) \<and>
    2 \<le> list_len g \<and> 0 < list_len g \<and> map_of (te_identities g) 1 = Some (5, 8)"
    by (simp add: g list_active_tes_def list_len_def)
  with insert_te_shifts_later_entries[THEN conjunct2, THEN conjunct2, THEN conjunct1,
      of g 2 1 5 8 2]
  have "\<exists>g'. list_insert_te 2 2 g = Inr (2, g') \<and> map_of (te_identities g') 1 = Some (7, 10)"
    by (simp add: g list_len_def)
  then show "\<exists>g'. list_insert_te 2 2 (list_apply (Insert_te 5 3) (list_init 10)) = Inr (2, g') \<and>
      map_of (te_identities g') 1 = Some (7, 10)"
    unfolding g_def .
next
  define k where "k = linked_apply (Insert_te 5 3) (linked_init 10)"
  obtain K1 cs1 where k1: "linked_insert_te 5 3 (linked_init 10) = Inr (1, K1)"
    and rep1: "represents K1 cs1 \<lparr>genome = ''-----AAA-----'', te_identities = [(1, (5, 8))], te_count = 1\<rparr>"
    using linked_scenario_5_3 by blast
  have "k = K1" by (simp add: k_def k1)
  then have r1: "ll_te_identities k = [(1, (5, 8))]" "ll_te_count k = 1" "glength k = 13"
    using rep1 represents_length[OF rep1] by (simp_all add: represents_def)
  have "distinct (linked_active_tes k) \<and> (\<forall>i \<in> set (linked_active_tes k). i \<le> ll_te_count k) \<and>
    2 \<le> linked_len k \<and> map_of (ll_te_identities k) 1 = Some (5, 8)"
    by (simp add: r1 linked_active_tes_def linked_len_def)
  with insert_te_shifts_later_entries[THEN conjunct2, THEN conjunct2, THEN conjunct2,
      of k 2 1 5 8 2]
  have "\<exists>k'. linked_insert_te 2 2 k = Inr (2, k') \<and> map_of (ll_te_identities k') 1 = Some (7, 10)"
    by (simp add: r1)
  then show "\<exists>k'. linked_insert_te 2 2 (linked_apply (Insert_te 5 3) (linked_init 10)) = Inr (2, k') \<and>
      map_of (ll_te_identities k') 1 = Some (7, 10)"
    unfolding k_def .
qed

text \<open>
  C9. For every script whose insertions have non-negative lengths, run on genomes
  constructed with \<open>n \<ge> 0\<close>, and at every point of it (the object after any such
  script), in both classes: \<open>length()\<close> is the length of \<open>render()\<close>, and in
  \<open>LinkedListGenome\<close> \<open>render()\<close> does return a string; no further call makes the length
  smaller; a successful \<open>insert_te(p, len)\<close> adds exactly \<open>len\<close> to the length; a
  successful \<open>copy_te\<close> of a TE registered at \<open>(s, e)\<close> adds exactly \<open>e - s\<close>, and a
  \<open>copy_te\<close> that returns \<open>None\<close> changes nothing; a successful \<open>disable_te\<close> leaves
  the length as it is. (A call that raises changes no field.)
\<close>

theorem length_equals_render_length_and_only_grows:
  assumes "0 \<le> n" and "list_all nonneg_len ops"
  shows
   "list_len (list_run n ops) = int (length (list_str (list_run n ops))) \<and>
    (\<exists>r. linked_str (linked_run n ops) = Inr r \<and> linked_len (linked_run n ops) = int (length r)) \<and>
    (nonneg_len c \<longrightarrow>
       list_len (list_run n ops) \<le> list_len (list_run n (ops @ [c])) \<and>
       linked_len (linked_run n ops) \<le> linked_len (linked_run n (ops @ [c]))) \<and>
    (0 \<le> len \<longrightarrow> list_insert_te p len (list_run n ops) = Inr (i, g') \<longrightarrow>
       list_len g' = list_len (list_run n ops) + len) \<and>
    (0 \<le> len \<longrightarrow> linked_insert_te p len (linked_run n ops) = Inr (j, k') \<longrightarrow>
       linked_len k' = linked_len (linked_run n ops) + len) \<and>
    (list_copy_te te offset (list_run n ops) = Inr (res, g2) \<longrightarrow>
       (res = None \<longrightarrow> g2 = list_run n ops) \<and>
       (\<forall>s e. map_of (te_identities (list_run n ops)) te = Some (s, e) \<longrightarrow>
          list_len g2 = list_len (list_run n ops) + (e - s))) \<and>
    (linked_copy_te te offset (linked_run n ops) = Inr (res', k2) \<longrightarrow>
       (res' = None \<longrightarrow> k2 = linked_run n ops) \<and>
       (\<forall>s e. map_of (ll_te_identities (linked_run n ops)) te = Some (s, e) \<longrightarrow>
          linked_len k2 = linked_len (linked_run n ops) + (e - s))) \<and>
    (list_disable_te t (list_run n ops) = Inr g3 \<longrightarrow> list_len g3 = list_len (list_run n ops)) \<and>
    (linked_disable_te t (linked_run n ops) = Inr k3 \<longrightarrow> linked_len k3 = linked_len (linked_run n ops))"
proof -
  have wl: "list_wf (list_run n ops)" by (rule list_run_wf[OF assms(2)])
  have wk: "linked_wf (linked_run n ops)" by (rule linked_run_wf[OF assms])
  have 1: "list_len (list_run n ops) = int (length (list_str (list_run n ops)))"
    by (simp add: list_len_def list_str_def)
  have 2: "\<exists>r. linked_str (linked_run n ops) = Inr r \<and> linked_len (linked_run n ops) = int (length r)"
    by (rule ll_shape_str) (use wk in \<open>simp add: linked_wf_def\<close>)
  have 3: "nonneg_len c \<longrightarrow>
       list_len (list_run n ops) \<le> list_len (list_run n (ops @ [c])) \<and>
       linked_len (linked_run n ops) \<le> linked_len (linked_run n (ops @ [c]))"
    using list_apply_wf[OF wl, of c] linked_apply_wf[OF wk, of c]
    by (simp add: list_run_snoc linked_run_snoc)
  have 4: "0 \<le> len \<longrightarrow> list_insert_te p len (list_run n ops) = Inr (i, g') \<longrightarrow>
       list_len g' = list_len (list_run n ops) + len"
    using list_insert_te_wf[OF wl, of len p i g'] by simp
  have 5: "0 \<le> len \<longrightarrow> linked_insert_te p len (linked_run n ops) = Inr (j, k') \<longrightarrow>
       linked_len k' = linked_len (linked_run n ops) + len"
    using linked_insert_te_wf[OF wk, of len p j k'] by simp
  have 6: "list_copy_te te offset (list_run n ops) = Inr (res, g2) \<longrightarrow>
       (res = None \<longrightarrow> g2 = list_run n ops) \<and>
       (\<forall>s e. map_of (te_identities (list_run n ops)) te = Some (s, e) \<longrightarrow>
          list_len g2 = list_len (list_run n ops) + (e - s))"
    using list_copy_te_wf[OF wl, of te offset res g2] by simp
  have 7: "linked_copy_te te offset (linked_run n ops) = Inr (res', k2) \<longrightarrow>
       (res' = None \<longrightarrow> k2 = linked_run n ops) \<and>
       (\<forall>s e. map_of (ll_te_identities (linked_run n ops)) te = Some (s, e) \<longrightarrow>
          linked_len k2 = linked_len (linked_run n ops) + (e - s))"
    using linked_copy_te_wf[OF wk, of te offset res' k2] by simp
  have 8: "list_disable_te t (list_run n ops) = Inr g3 \<longrightarrow> list_len g3 = list_len (list_run n ops)"
    using list_disable_te_wf[OF wl, of t g3] by simp
  have 9: "linked_disable_te t (linked_run n ops) = Inr k3 \<longrightarrow> linked_len k3 = linked_len (linked_run n ops)"
    using linked_disable_te_wf[OF wk, of t k3] by simp
  show ?thesis using 1 2 3 4 5 6 7 8 9 by blast
qed

theorem length_equals_render_length_and_only_grows_witness:
  "list_len (list_run 10 [Insert_te 5 3]) = int (length (list_str (list_run 10 [Insert_te 5 3]))) \<and>
   (\<exists>r. linked_str (linked_run 10 [Insert_te 5 3]) = Inr r \<and>
        linked_len (linked_run 10 [Insert_te 5 3]) = int (length r)) \<and>
   list_len (list_run 10 [Insert_te 5 3]) \<le> list_len (list_run 10 ([Insert_te 5 3] @ [Insert_te 2 2])) \<and>
   linked_len (linked_run 10 [Insert_te 5 3]) \<le> linked_len (linked_run 10 ([Insert_te 5 3] @ [Insert_te 2 2])) \<and>
   (\<exists>g'. list_insert_te 2 2 (list_run 10 [Insert_te 5 3]) = Inr (2, g') \<and>
         list_len g' = list_len (list_run 10 [Insert_te 5 3]) + 2) \<and>
   (\<exists>k'. linked_insert_te 2 2 (linked_run 10 [Insert_te 5 3]) = Inr (2, k') \<and>
         linked_len k' = linked_len (linked_run 10 [Insert_te 5 3]) + 2) \<and>
   (\<exists>g3. list_disable_te 1 (list_run 10 [Insert_te 5 3]) = Inr g3 \<and>
         list_len g3 = list_len (list_run 10 [Insert_te 5 3])) \<and>
   (\<exists>k3. linked_disable_te 1 (linked_run 10 [Insert_te 5 3]) = Inr k3 \<and>
         linked_len k3 = linked_len (linked_run 10 [Insert_te 5 3]))"
proof -
  define ops where "ops = [Insert_te 5 3]"
  define g where "g = list_run 10 ops"
  define k where "k = linked_run 10 ops"
  have ok: "(0::int) \<le> 10" "list_all nonneg_len ops" "nonneg_len (Insert_te 2 2)" "(0::int) \<le> 2"
    by (simp_all add: ops_def nonneg_len_def)
  have g: "g = \<lparr>genome = ''-----AAA-----'', te_identities = [(1, (5, 8))], te_count = 1\<rparr>"
    by (simp add: g_def ops_def list_run_def list_scenario_5_3)
  obtain K1 cs1 where k1: "linked_insert_te 5 3 (linked_init 10) = Inr (1, K1)"
    and rep1: "represents K1 cs1 \<lparr>genome = ''-----AAA-----'', te_identities = [(1, (5, 8))], te_count = 1\<rparr>"
    using linked_scenario_5_3 by blast
  have k: "k = K1" by (simp add: k_def ops_def linked_run_def k1)
  obtain g' where ig: "list_insert_te 2 2 g = Inr (2, g')"
    unfolding g using list_scenario_2_2 by blast
  obtain k' where ik: "linked_insert_te 2 2 k = Inr (2, k')"
    unfolding k using linked_scenario_2_2[OF rep1] by blast
  obtain g3 where dg: "list_disable_te 1 g = Inr g3"
    unfolding g using list_scenario_disable by blast
  have "map_of (ll_te_identities k) 1 = Some (5, 8)"
    unfolding k using rep1 by (simp add: represents_def)
  then obtain k3 where dk: "linked_disable_te 1 k = Inr k3"
    using linked_disable_te_general by blast
  note t = length_equals_render_length_and_only_grows[OF ok(1,2),
      of "Insert_te 2 2" 2 2 2 g' 2 k' _ _ _ _ _ _ 1 g3 k3, folded g_def k_def]
  have "list_len g = int (length (list_str g)) \<and>
   (\<exists>r. linked_str k = Inr r \<and> linked_len k = int (length r)) \<and>
   list_len g \<le> list_len (list_run 10 (ops @ [Insert_te 2 2])) \<and>
   linked_len k \<le> linked_len (linked_run 10 (ops @ [Insert_te 2 2])) \<and>
   (\<exists>g'. list_insert_te 2 2 g = Inr (2, g') \<and> list_len g' = list_len g + 2) \<and>
   (\<exists>k'. linked_insert_te 2 2 k = Inr (2, k') \<and> linked_len k' = linked_len k + 2) \<and>
   (\<exists>g3. list_disable_te 1 g = Inr g3 \<and> list_len g3 = list_len g) \<and>
   (\<exists>k3. linked_disable_te 1 k = Inr k3 \<and> linked_len k3 = linked_len k)"
    using t ok(3,4) ig ik dg dk by blast
  then show ?thesis unfolding g_def k_def ops_def .
qed

text \<open>
  C6, as stated: after an insertion inside an active TE, every index of its former span
  \<open>[s, e)\<close> is claimed to render \<open>x\<close>. With TE 1 at \<open>(2, 6)\<close> in a genome of 14 cells,
  \<open>insert_te(3, 2)\<close> disables TE 1, and then index 3, inside \<open>[2, 6)\<close>, renders \<open>A\<close>: the
  new cells are spliced in at position 3, between the cells of the old TE. Both classes
  do so.
\<close>

theorem collision_splits_old_span:
  "(case list_insert_te 2 4 (list_init 10) of
      Inl err \<Rightarrow> False
    | Inr (t1, g1) \<Rightarrow>
        map_of (te_identities g1) t1 = Some (2, 6) \<and>
        (case list_insert_te 3 2 g1 of
           Inl err \<Rightarrow> False
         | Inr (t2, g2) \<Rightarrow>
             list_active_tes g2 = [t2] \<and> t2 \<noteq> t1 \<and> list_str g2 = ''--xAAxxx--------'' \<and>
             list_str g2 ! 3 \<noteq> CHR ''x'')) \<and>
   (case linked_insert_te 2 4 (linked_init 10) of
      Inl err \<Rightarrow> False
    | Inr (t1, k1) \<Rightarrow>
        map_of (ll_te_identities k1) t1 = Some (2, 6) \<and>
        (case linked_insert_te 3 2 k1 of
           Inl err \<Rightarrow> False
         | Inr (t2, k2) \<Rightarrow>
             linked_active_tes k2 = [t2] \<and> t2 \<noteq> t1 \<and> linked_str k2 = Inr ''--xAAxxx--------'' \<and>
             ''--xAAxxx--------'' ! 3 \<noteq> CHR ''x''))"
proof -
  obtain K1 cs1 where k1: "linked_insert_te 2 4 (linked_init 10) = Inr (1, K1)"
    and rep1: "represents K1 cs1 \<lparr>genome = ''--AAAA--------'', te_identities = [(1, (2, 6))], te_count = 1\<rparr>"
    using linked_scenario_2_4 by blast
  obtain K2 cs2 where k2: "linked_insert_te 3 2 K1 = Inr (2, K2)"
    and rep2: "represents K2 cs2 \<lparr>genome = ''--xAAxxx--------'', te_identities = [(2, (3, 5))], te_count = 2\<rparr>"
    using linked_scenario_3_2[OF rep1] by blast
  have r1: "ll_te_identities K1 = [(1, (2, 6))]" using rep1 by (simp add: represents_def)
  have r2: "ll_te_identities K2 = [(2, (3, 5))]" using rep2 by (simp add: represents_def)
  show ?thesis
    using linked_str_represents[OF rep2]
    by (simp add: list_scenario_2_4 list_scenario_3_2 k1 k2 r1 r2
        list_active_tes_def linked_active_tes_def list_str_def)
qed

text \<open>
  C6, amended. In a well-formed genome (distinct keys that are ids issued so far, every
  registered range inside the genome) with an active TE \<open>te\<close> of range \<open>(s, e)\<close>, an
  \<open>insert_te\<close> of non-negative length whose position \<open>pos\<close> satisfies \<open>s \<le> pos < e\<close>
  succeeds and disables \<open>te\<close> entirely: \<open>te\<close> is no longer active, the new id is active
  with the range \<open>(pos, pos + len)\<close>, the length grows by \<open>len\<close>, and all \<open>e - s\<close> cells
  of the old TE render \<open>x\<close>; they now sit at the indices \<open>[s, pos)\<close> and
  \<open>[pos + len, e + len)\<close>, around the new TE's \<open>A\<close> at \<open>[pos, pos + len)\<close>. \<open>pos\<close> is
  \<open>p mod length\<close> in \<open>ListGenome\<close>; in \<open>LinkedListGenome\<close> it is \<open>p\<close> itself, and the
  statement is for \<open>p \<ge> 1\<close>.
\<close>

theorem collision_disables_whole_te:
  "(list_wf g \<and> map_of (te_identities g) te = Some (s, e) \<and> p \<le> list_len g \<and>
    s \<le> p mod list_len g \<and> p mod list_len g < e \<and> 0 \<le> len \<longrightarrow>
      (\<exists>g'. list_insert_te p len g = Inr (te_count g + 1, g') \<and>
         after_collision te s e (p mod list_len g) len (te_count g + 1)
           (list_active_tes g') (te_identities g') (list_str g') \<and>
         list_len g' = list_len g + len)) \<and>
   (represents k cs L \<and> list_wf L \<and> map_of (ll_te_identities k) u = Some (a, b) \<and>
    a \<le> q \<and> q < b \<and> 1 \<le> q \<and> 0 \<le> m \<longrightarrow>
      (\<exists>k' r. linked_insert_te q m k = Inr (ll_te_count k + 1, k') \<and> linked_str k' = Inr r \<and>
         after_collision u a b q m (ll_te_count k + 1)
           (linked_active_tes k') (ll_te_identities k') r \<and>
         linked_len k' = linked_len k + m))"
  using list_collision[of g te s e p len] linked_collision[of k cs L u a b q m]
  by blast

theorem collision_disables_whole_te_witness:
  "(\<exists>g'. list_insert_te 3 2 (list_apply (Insert_te 2 4) (list_init 10)) = Inr (2, g') \<and>
      after_collision 1 2 6 3 2 2 (list_active_tes g') (te_identities g') (list_str g') \<and>
      list_str g' = ''--xAAxxx--------'') \<and>
   (\<exists>k' r. linked_insert_te 3 2 (linked_apply (Insert_te 2 4) (linked_init 10)) = Inr (2, k') \<and>
      linked_str k' = Inr r \<and>
      after_collision 1 2 6 3 2 2 (linked_active_tes k') (ll_te_identities k') r \<and>
      r = ''--xAAxxx--------'')"
proof
  define g where "g = list_apply (Insert_te 2 4) (list_init 10)"
  have g: "g = \<lparr>genome = ''--AAAA--------'', te_identities = [(1, (2, 6))], te_count = 1\<rparr>"
    by (simp add: g_def list_scenario_2_4)
  have h: "list_wf g \<and> map_of (te_identities g) 1 = Some (2, 6) \<and> 3 \<le> list_len g \<and>
    2 \<le> 3 mod list_len g \<and> 3 mod list_len g < 6 \<and> (0::int) \<le> 2"
    by (simp add: g list_wf_def in_bounds_def list_len_def)
  have m: "3 mod list_len g = 3" "te_count g + 1 = 2" by (simp_all add: g list_len_def)
  from collision_disables_whole_te[THEN conjunct1, of g 1 2 6 3 2] h
  obtain g' where "list_insert_te 3 2 g = Inr (2, g')"
    "after_collision 1 2 6 3 2 2 (list_active_tes g') (te_identities g') (list_str g')"
    unfolding m by blast
  moreover from this(1) have "list_str g' = ''--xAAxxx--------''"
    unfolding g by (auto simp: list_scenario_3_2 list_str_def)
  ultimately show "\<exists>g'. list_insert_te 3 2 (list_apply (Insert_te 2 4) (list_init 10)) = Inr (2, g') \<and>
      after_collision 1 2 6 3 2 2 (list_active_tes g') (te_identities g') (list_str g') \<and>
      list_str g' = ''--xAAxxx--------''"
    unfolding g_def by blast
next
  define k where "k = linked_apply (Insert_te 2 4) (linked_init 10)"
  let ?L = "\<lparr>genome = ''--AAAA--------'', te_identities = [(1, (2, 6))], te_count = 1\<rparr>"
  obtain K1 cs1 where k1: "linked_insert_te 2 4 (linked_init 10) = Inr (1, K1)"
    and rep1: "represents K1 cs1 ?L"
    using linked_scenario_2_4 by blast
  have k: "k = K1" by (simp add: k_def k1)
  have rep: "represents k cs1 ?L" using rep1 k by simp
  have r: "ll_te_identities k = [(1, (2, 6))]" "ll_te_count k + 1 = 2"
    using rep by (simp_all add: represents_def)
  have h: "represents k cs1 ?L \<and> list_wf ?L \<and> map_of (ll_te_identities k) 1 = Some (2, 6) \<and>
    (2::int) \<le> 3 \<and> (3::int) < 6 \<and> (1::int) \<le> 3 \<and> (0::int) \<le> 2"
    using rep by (simp add: r list_wf_def in_bounds_def)
  from collision_disables_whole_te[THEN conjunct2, of k cs1 ?L 1 2 6 3 2] h
  obtain k' r' where a: "linked_insert_te 3 2 k = Inr (2, k')" "linked_str k' = Inr r'"
    "after_collision 1 2 6 3 2 2 (linked_active_tes k') (ll_te_identities k') r'"
    unfolding r by blast
  obtain K2 cs2 where k2: "linked_insert_te 3 2 K1 = Inr (2, K2)"
    and rep2: "represents K2 cs2 \<lparr>genome = ''--xAAxxx--------'', te_identities = [(2, (3, 5))], te_count = 2\<rparr>"
    using linked_scenario_3_2[OF rep1] by blast
  have "k' = K2" using a(1) k2 k by simp
  then have "r' = ''--xAAxxx--------''"
    using a(2) linked_str_represents[OF rep2] by (simp add: list_str_def)
  then show "\<exists>k' r. linked_insert_te 3 2 (linked_apply (Insert_te 2 4) (linked_init 10)) = Inr (2, k') \<and>
      linked_str k' = Inr r \<and>
      after_collision 1 2 6 3 2 2 (linked_active_tes k') (ll_te_identities k') r \<and>
      r = ''--xAAxxx--------''"
    using a unfolding k_def by blast
qed

end
